theory Spec2Isabelle
  imports Main "HOL-Library.AList"
begin

section \<open>The signaling server of \<^verbatim>\<open>src/server.js\<close>\<close>

text \<open>
  The server keeps three module-level JavaScript \<^verbatim>\<open>Map\<close>s (\<^verbatim>\<open>users\<close>, \<^verbatim>\<open>rooms\<close>,
  \<^verbatim>\<open>userRooms\<close>) and reacts to socket events.  A JavaScript \<^verbatim>\<open>Map\<close> iterates in
  insertion order and \<^verbatim>\<open>set\<close> on a present key keeps the key's position, so a
  \<^verbatim>\<open>Map\<close> is an association list: \<^verbatim>\<open>get\<close> is \<open>map_of\<close>, \<^verbatim>\<open>set\<close> is \<open>AList.update\<close>
  (replace in place, else append) and \<^verbatim>\<open>delete\<close> is \<open>AList.delete\<close>.  A JavaScript
  \<^verbatim>\<open>Set\<close> is a duplicate-free list in insertion order.  Every handler runs to
  completion, so a handler is a function from the state to the new state and the
  list of messages it hands to socket.io, in the order it issues them.
\<close>

subsection \<open>JavaScript containers\<close>

abbreviation Map_get :: "('k \<times> 'v) list \<Rightarrow> 'k \<Rightarrow> 'v option" where
  "Map_get m k \<equiv> map_of m k"

abbreviation Map_has :: "('k \<times> 'v) list \<Rightarrow> 'k \<Rightarrow> bool" where
  "Map_has m k \<equiv> map_of m k \<noteq> None"

abbreviation Map_set :: "'k \<Rightarrow> 'v \<Rightarrow> ('k \<times> 'v) list \<Rightarrow> ('k \<times> 'v) list" where
  "Map_set k v m \<equiv> AList.update k v m"

abbreviation Map_delete :: "'k \<Rightarrow> ('k \<times> 'v) list \<Rightarrow> ('k \<times> 'v) list" where
  "Map_delete k m \<equiv> AList.delete k m"

definition Set_add :: "'a \<Rightarrow> 'a list \<Rightarrow> 'a list" where
  "Set_add x xs = (if x \<in> set xs then xs else xs @ [x])"

definition Set_delete :: "'a \<Rightarrow> 'a list \<Rightarrow> 'a list" where
  "Set_delete x xs = removeAll x xs"

text \<open>\<^verbatim>\<open>a || b\<close> on an optional string: \<^verbatim>\<open>undefined\<close> and the empty string are falsy.\<close>

definition or_else :: "string option \<Rightarrow> string \<Rightarrow> string" where
  "or_else a b = (case a of None \<Rightarrow> b | Some x \<Rightarrow> if x = [] then b else x)"

subsection \<open>Data\<close>

text \<open>The user object built by \<^verbatim>\<open>register-user\<close>; \<open>user_id\<close> is its field \<^verbatim>\<open>id\<close>.
  Dates are milliseconds.\<close>

record user =
  user_id :: string
  name :: string
  socketId :: string
  lastSeen :: int
  isOnline :: bool

text \<open>An element of a \<^verbatim>\<open>user-list\<close> payload: \<^verbatim>\<open>{id, name, isOnline, lastSeen}\<close>.\<close>

type_synonym user_item = "string \<times> string \<times> bool \<times> int"

text \<open>The payload of \<^verbatim>\<open>signal\<close>: \<^verbatim>\<open>{to, type, ...}\<close>, the rest opaque.\<close>

record signalData =
  sig_to :: string
  sig_type :: string
  sig_body :: string

text \<open>The payload of \<^verbatim>\<open>chat-message\<close>: \<^verbatim>\<open>{recipientId, content, type?}\<close>.\<close>

record messageData =
  md_recipientId :: string
  md_content :: string
  md_type :: "string option"

text \<open>The envelope built by \<^verbatim>\<open>chat-message\<close>; \<open>msg_id\<close> is its field \<^verbatim>\<open>id\<close>.\<close>

record message =
  msg_id :: string
  senderId :: string
  senderName :: string
  recipientId :: string
  content :: string
  timestamp :: int
  msg_type :: string
  deliveryStatus :: string

text \<open>The payloads the server emits, one constructor per event name.\<close>

datatype payload =
    UserRegistered string string string
  | UserList "user_item list"
  | JoinAck bool string
  | LeaveAck bool
  | UserJoinedRoom "string option" "string option" string
  | UserLeftRoom "string option" "string option" string
  | SignalMsg signalData string string int
  | SignalError string string signalData
  | ChatMessage message
  | MessageDelivered string string int
  | MessageOffline string string int
  | TypingMsg string string bool int

text \<open>
  Where a payload is sent.  \<^verbatim>\<open>socket.emit\<close> and \<^verbatim>\<open>io.to(socketId).emit\<close> are
  \<open>SendTo\<close> that connection, \<^verbatim>\<open>io.emit\<close> is \<open>Broadcast\<close>,
  \<^verbatim>\<open>socket.to(room).emit\<close> is \<open>BroadcastToGroup room socket.id\<close> (the group without
  the acting connection), and a call of the acknowledgment \<^verbatim>\<open>callback\<close> is \<open>Ack\<close>.
\<close>

datatype target =
    SendTo string
  | Broadcast
  | BroadcastToGroup string string
  | Ack string

type_synonym effect = "target \<times> payload"

text \<open>
  The state: the three maps of the source, the pending \<^verbatim>\<open>setTimeout\<close> callbacks of
  \<^verbatim>\<open>disconnect\<close> (due time and the captured \<^verbatim>\<open>socket.id\<close>), and what socket.io itself
  holds: the live connections and the membership of its groups, the pairs
  (group, connection) that \<^verbatim>\<open>socket.join\<close> adds and \<^verbatim>\<open>socket.leave\<close> removes.
\<close>

record state =
  users :: "(string \<times> user) list"
  rooms :: "(string \<times> string list) list"
  userRooms :: "(string \<times> string list) list"
  timers :: "(int \<times> string) list"
  conns :: "string list"
  groups :: "(string \<times> string) list"

definition initial :: state where
  "initial = \<lparr>users = [], rooms = [], userRooms = [], timers = [], conns = [], groups = []\<rparr>"

subsection \<open>The transport\<close>

definition socket_join :: "string \<Rightarrow> string \<Rightarrow> (string \<times> string) list \<Rightarrow> (string \<times> string) list" where
  "socket_join c g gs = Set_add (g, c) gs"

definition socket_leave :: "string \<Rightarrow> string \<Rightarrow> (string \<times> string) list \<Rightarrow> (string \<times> string) list" where
  "socket_leave c g gs = Set_delete (g, c) gs"

definition group_members :: "string \<Rightarrow> (string \<times> string) list \<Rightarrow> string list" where
  "group_members g gs = map snd (filter (\<lambda>p. fst p = g) gs)"

text \<open>The sockets of a group: socket.io keeps every open socket in a group named by
  its own id, next to the groups the socket has joined.\<close>

definition room_sockets :: "state \<Rightarrow> string \<Rightarrow> string list" where
  "room_sockets s g =
     remdups ((if g \<in> set (conns s) then [g] else []) @ group_members g (groups s))"

text \<open>
  The connections a message reaches.  A closed connection receives nothing.  A message
  for a group reaches the sockets of the group without the sender.  \<open>SendTo c\<close> is
  the addressed connection \<open>c\<close>; what \<^verbatim>\<open>io.to(socketId)\<close> sends reaches in socket.io
  also a socket that has joined a group named by that id, which this list leaves out.
\<close>

fun recipients :: "state \<Rightarrow> target \<Rightarrow> string list" where
  "recipients s (SendTo c) = (if c \<in> set (conns s) then [c] else [])"
| "recipients s Broadcast = conns s"
| "recipients s (BroadcastToGroup g c) = filter (\<lambda>d. d \<noteq> c) (room_sockets s g)"
| "recipients s (Ack c) = (if c \<in> set (conns s) then [c] else [])"

definition deliveries :: "state \<Rightarrow> effect list \<Rightarrow> (string \<times> payload) list" where
  "deliveries s es = concat (map (\<lambda>e. map (\<lambda>c. (c, snd e)) (recipients s (fst e))) es)"

subsection \<open>Shared shapes of the handlers\<close>

text \<open>
  \<^verbatim>\<open>if (!m.has(k)) m.set(k, new Set()); m.get(k).add(x);\<close> as it stands in
  \<^verbatim>\<open>register-user\<close> and \<^verbatim>\<open>join-room\<close>, for \<^verbatim>\<open>rooms\<close> and for \<^verbatim>\<open>userRooms\<close>.
\<close>

definition index_add :: "string \<Rightarrow> string \<Rightarrow> (string \<times> string list) list \<Rightarrow> (string \<times> string list) list" where
  "index_add k x m =
     (let m1 = (if \<not> Map_has m k then Map_set k [] m else m)
      in case Map_get m1 k of None \<Rightarrow> m1 | Some xs \<Rightarrow> Map_set k (Set_add x xs) m1)"

text \<open>
  \<^verbatim>\<open>if (rooms.has(r)) { rooms.get(r).delete(c); if (rooms.get(r).size === 0) rooms.delete(r); }\<close>
  as it stands in \<^verbatim>\<open>leave-room\<close> and in the loop of \<^verbatim>\<open>disconnect\<close>.
\<close>

definition room_remove :: "string \<Rightarrow> string \<Rightarrow> (string \<times> string list) list \<Rightarrow> (string \<times> string list) list" where
  "room_remove r c m =
     (case Map_get m r of
        None \<Rightarrow> m
      | Some xs \<Rightarrow>
          (let m1 = Map_set r (Set_delete c xs) m
           in if Set_delete c xs = [] then Map_delete r m1 else m1))"

text \<open>The list built by \<^verbatim>\<open>broadcastUserList\<close> and by the \<^verbatim>\<open>connection\<close> handler.\<close>

definition userList :: "state \<Rightarrow> user_item list" where
  "userList s = map (\<lambda>u. (user_id u, name u, isOnline u, lastSeen u)) (map snd (users s))"

definition broadcastUserList :: "state \<Rightarrow> effect list" where
  "broadcastUserList s = [(Broadcast, UserList (userList s))]"

text \<open>\<^verbatim>\<open>Array.from(users.values()).find(u => u.id === x)\<close>: the first entry in
  insertion order whose id is \<open>x\<close>.\<close>

definition find_user :: "state \<Rightarrow> string \<Rightarrow> user option" where
  "find_user s x = find (\<lambda>u. user_id u = x) (map snd (users s))"

subsection \<open>HTTP endpoints\<close>

definition health :: "state \<Rightarrow> nat \<times> nat" where
  "health s = (length (users s), length (rooms s))"

definition get_users :: "state \<Rightarrow> user_item list" where
  "get_users s = map (\<lambda>u. (user_id u, name u, True, lastSeen u)) (map snd (users s))"

subsection \<open>Socket handlers\<close>

text \<open>
  The payloads are objects of the documented shape with string fields, so no statement
  inside a \<^verbatim>\<open>try\<close> block throws and the \<^verbatim>\<open>catch\<close> branches (which only log, or report
  \<^verbatim>\<open>success: false\<close>, \<^verbatim>\<open>signal-error\<close> and \<^verbatim>\<open>message-error\<close>) are never entered.  The
  \<^verbatim>\<open>console.log\<close> calls are left out.
\<close>

text \<open>\<^verbatim>\<open>io.on('connection')\<close>: the new socket gets the current list.\<close>

definition connection :: "string \<Rightarrow> state \<Rightarrow> state \<times> effect list" where
  "connection c s = (s, [(SendTo c, UserList (userList s))])"

text \<open>\<^verbatim>\<open>register-user\<close>; \<open>now\<close> is \<^verbatim>\<open>new Date()\<close> and \<open>uuid\<close> what \<^verbatim>\<open>uuidv4()\<close> would return.\<close>

definition register_user ::
  "string \<Rightarrow> string option \<Rightarrow> string option \<Rightarrow> int \<Rightarrow> string \<Rightarrow> state \<Rightarrow> state \<times> effect list" where
  "register_user c userId nm now uuid s =
     (let usr = \<lparr>user_id = or_else userId uuid,
                 name = or_else nm (''User_'' @ take 6 c),
                 socketId = c, lastSeen = now, isOnline = True\<rparr>;
          personalRoom = ''user_'' @ user_id usr;
          s1 = s\<lparr>users := Map_set c usr (users s)\<rparr>;
          s2 = s1\<lparr>groups := socket_join c personalRoom (groups s1)\<rparr>;
          s3 = s2\<lparr>rooms := index_add personalRoom c (rooms s2)\<rparr>;
          s4 = s3\<lparr>userRooms := index_add (user_id usr) personalRoom (userRooms s3)\<rparr>
      in (s4, (SendTo c, UserRegistered (user_id usr) (name usr) personalRoom) # broadcastUserList s4))"

text \<open>\<^verbatim>\<open>join-room\<close>; \<open>cb\<close> tells whether the client passed a callback.\<close>

definition join_room :: "string \<Rightarrow> string \<Rightarrow> bool \<Rightarrow> state \<Rightarrow> state \<times> effect list" where
  "join_room c roomId cb s =
     (let s1 = s\<lparr>groups := socket_join c roomId (groups s)\<rparr>;
          s2 = s1\<lparr>rooms := index_add roomId c (rooms s1)\<rparr>;
          usr = Map_get (users s2) c;
          s3 = (case usr of
                  None \<Rightarrow> s2
                | Some u \<Rightarrow> s2\<lparr>userRooms := index_add (user_id u) roomId (userRooms s2)\<rparr>)
      in (s3, (if cb then [(Ack c, JoinAck True roomId)] else []) @
              [(BroadcastToGroup roomId c,
                UserJoinedRoom (map_option user_id usr) (map_option name usr) roomId)]))"

text \<open>\<^verbatim>\<open>leave-room\<close>.\<close>

definition leave_room :: "string \<Rightarrow> string \<Rightarrow> bool \<Rightarrow> state \<Rightarrow> state \<times> effect list" where
  "leave_room c roomId cb s =
     (let s1 = s\<lparr>groups := socket_leave c roomId (groups s)\<rparr>;
          s2 = s1\<lparr>rooms := room_remove roomId c (rooms s1)\<rparr>;
          usr = Map_get (users s2) c;
          s3 = (case usr of
                  None \<Rightarrow> s2
                | Some u \<Rightarrow>
                    (case Map_get (userRooms s2) (user_id u) of
                       None \<Rightarrow> s2
                     | Some rs \<Rightarrow>
                         s2\<lparr>userRooms := Map_set (user_id u) (Set_delete roomId rs) (userRooms s2)\<rparr>))
      in (s3, (if cb then [(Ack c, LeaveAck True)] else []) @
              [(BroadcastToGroup roomId c,
                UserLeftRoom (map_option user_id usr) (map_option name usr) roomId)]))"

text \<open>\<^verbatim>\<open>signal\<close>: no state is written.\<close>

definition signal :: "string \<Rightarrow> signalData \<Rightarrow> int \<Rightarrow> state \<Rightarrow> effect list" where
  "signal c signalData now s =
     (case Map_get (users s) c of
        None \<Rightarrow> []
      | Some usr \<Rightarrow>
          (case find_user s (sig_to signalData) of
             Some targetUser \<Rightarrow>
               [(SendTo (socketId targetUser), SignalMsg signalData (user_id usr) (name usr) now)]
           | None \<Rightarrow>
               [(SendTo c, SignalError ''User not found or offline'' (sig_to signalData) signalData)]))"

text \<open>\<^verbatim>\<open>chat-message\<close>: no state is written.  \<open>uuid\<close> is what \<^verbatim>\<open>uuidv4()\<close> returns;
  the two \<^verbatim>\<open>new Date()\<close> of the delivered branch are both \<open>now\<close>.\<close>

definition chat_message :: "string \<Rightarrow> messageData \<Rightarrow> int \<Rightarrow> string \<Rightarrow> state \<Rightarrow> effect list" where
  "chat_message c messageData now uuid s =
     (case Map_get (users s) c of
        None \<Rightarrow> []
      | Some usr \<Rightarrow>
          (let msg = \<lparr>msg_id = uuid, senderId = user_id usr, senderName = name usr,
                      recipientId = md_recipientId messageData, content = md_content messageData,
                      timestamp = now, msg_type = or_else (md_type messageData) ''text'',
                      deliveryStatus = ''sent''\<rparr>
           in case find_user s (md_recipientId messageData) of
                Some targetUser \<Rightarrow>
                  [(SendTo (socketId targetUser), ChatMessage msg),
                   (SendTo c, MessageDelivered (msg_id msg) (user_id targetUser) now)]
              | None \<Rightarrow>
                  [(SendTo c, MessageOffline (msg_id msg) (md_recipientId messageData) now)]))"

text \<open>\<^verbatim>\<open>typing\<close>: no state is written.\<close>

definition typing :: "string \<Rightarrow> string \<Rightarrow> bool \<Rightarrow> int \<Rightarrow> state \<Rightarrow> effect list" where
  "typing c recipient isTyping now s =
     (case Map_get (users s) c of
        None \<Rightarrow> []
      | Some usr \<Rightarrow>
          (case find_user s recipient of
             Some targetUser \<Rightarrow>
               [(SendTo (socketId targetUser), TypingMsg (user_id usr) (name usr) isTyping now)]
           | None \<Rightarrow> []))"

text \<open>The loop of \<^verbatim>\<open>disconnect\<close> over the user's room set: it prunes \<^verbatim>\<open>rooms\<close> and
  notifies each room.\<close>

fun disconnect_rooms ::
  "string \<Rightarrow> user \<Rightarrow> string list \<Rightarrow> (string \<times> string list) list \<Rightarrow>
     (string \<times> string list) list \<times> effect list" where
  "disconnect_rooms c usr [] rm = (rm, [])"
| "disconnect_rooms c usr (roomId # rs) rm =
     (let rm1 = room_remove roomId c rm;
          (rm2, es) = disconnect_rooms c usr rs rm1
      in (rm2, (BroadcastToGroup roomId c,
                UserLeftRoom (Some (user_id usr)) (Some (name usr)) roomId) # es))"

definition gracePeriod :: int where
  "gracePeriod = 5000"

text \<open>\<^verbatim>\<open>disconnect\<close>.  The callback given to \<^verbatim>\<open>setTimeout\<close> is recorded in \<open>timers\<close>.\<close>

definition disconnect :: "string \<Rightarrow> int \<Rightarrow> state \<Rightarrow> state \<times> effect list" where
  "disconnect c now s =
     (case Map_get (users s) c of
        None \<Rightarrow> (s, [])
      | Some usr0 \<Rightarrow>
          (let usr = usr0\<lparr>isOnline := False, lastSeen := now\<rparr>;
               s1 = s\<lparr>users := Map_set c usr (users s)\<rparr>;
               (s2, es) =
                 (case Map_get (userRooms s1) (user_id usr) of
                    None \<Rightarrow> (s1, [])
                  | Some rs \<Rightarrow>
                      (let (rm, es) = disconnect_rooms c usr rs (rooms s1)
                       in (s1\<lparr>rooms := rm,
                               userRooms := Map_delete (user_id usr) (userRooms s1)\<rparr>, es)));
               s3 = s2\<lparr>timers := timers s2 @ [(now + gracePeriod, c)]\<rparr>
           in (s3, es)))"

text \<open>The callback of \<^verbatim>\<open>setTimeout\<close> in \<^verbatim>\<open>disconnect\<close>, for the captured \<^verbatim>\<open>socket.id\<close>.\<close>

definition timeout_callback :: "string \<Rightarrow> state \<Rightarrow> state \<times> effect list" where
  "timeout_callback c s =
     (let s1 = s\<lparr>users := Map_delete c (users s)\<rparr> in (s1, broadcastUserList s1))"

text \<open>Time passes to \<open>now\<close>: the pending callbacks that are due run, oldest first.\<close>

fun run_timers :: "string list \<Rightarrow> state \<Rightarrow> state \<times> effect list" where
  "run_timers [] s = (s, [])"
| "run_timers (c # cs) s =
     (let (s1, es1) = timeout_callback c s;
          (s2, es2) = run_timers cs s1
      in (s2, es1 @ es2))"

definition advance :: "int \<Rightarrow> state \<Rightarrow> state \<times> effect list" where
  "advance now s =
     (let due = filter (\<lambda>p. fst p \<le> now) (timers s);
          s1 = s\<lparr>timers := filter (\<lambda>p. \<not> fst p \<le> now) (timers s)\<rparr>
      in run_timers (map snd due) s1)"

definition inactiveThreshold :: int where
  "inactiveThreshold = 5 * 60 * 1000"

text \<open>The body of \<^verbatim>\<open>setInterval\<close>: the loop over \<^verbatim>\<open>users.entries()\<close>.  It only deletes
  the entry it is visiting, so it visits the entries the map had at the start.\<close>

fun cleanup_loop :: "int \<Rightarrow> (string \<times> user) list \<Rightarrow> state \<Rightarrow> state" where
  "cleanup_loop now [] s = s"
| "cleanup_loop now ((sockId, usr) # es) s =
     cleanup_loop now es
       (if \<not> isOnline usr \<and> now - lastSeen usr > inactiveThreshold
        then (let s1 = s\<lparr>users := Map_delete sockId (users s)\<rparr>
              in if Map_has (userRooms s1) (user_id usr)
                 then s1\<lparr>userRooms := Map_delete (user_id usr) (userRooms s1)\<rparr>
                 else s1)
        else s)"

text \<open>The test of the sweep on one entry.\<close>

definition stale :: "int \<Rightarrow> user \<Rightarrow> bool" where
  "stale now usr \<longleftrightarrow> \<not> isOnline usr \<and> now - lastSeen usr > inactiveThreshold"

definition cleanup :: "int \<Rightarrow> state \<Rightarrow> state" where
  "cleanup now s = cleanup_loop now (users s) s"

subsection \<open>Events\<close>

text \<open>
  What can happen to the server.  On \<open>Connect\<close> socket.io adds the connection; on
  \<open>Disconnect\<close> it has dropped the connection and taken it out of every group
  by the time the handler runs.
\<close>

datatype event =
    Connect string
  | Register string "string option" "string option" int string
  | JoinRoom string string bool
  | LeaveRoom string string bool
  | Signal string signalData int
  | Chat string messageData int string
  | Typing string string bool int
  | Disconnect string int
  | Advance int
  | Sweep int

fun step :: "event \<Rightarrow> state \<Rightarrow> state \<times> effect list" where
  "step (Connect c) s = connection c (s\<lparr>conns := Set_add c (conns s)\<rparr>)"
| "step (Register c userId nm now uuid) s = register_user c userId nm now uuid s"
| "step (JoinRoom c r cb) s = join_room c r cb s"
| "step (LeaveRoom c r cb) s = leave_room c r cb s"
| "step (Signal c d now) s = (s, signal c d now s)"
| "step (Chat c d now uuid) s = (s, chat_message c d now uuid s)"
| "step (Typing c r b now) s = (s, typing c r b now s)"
| "step (Disconnect c now) s =
     disconnect c now (s\<lparr>conns := Set_delete c (conns s),
                         groups := filter (\<lambda>p. snd p \<noteq> c) (groups s)\<rparr>)"
| "step (Advance now) s = advance now s"
| "step (Sweep now) s = (cleanup now s, [])"

fun run :: "event list \<Rightarrow> state \<Rightarrow> state" where
  "run [] s = s"
| "run (e # es) s = run es (fst (step e s))"

subsection \<open>Reading the indexes\<close>

text \<open>\<open>mem m k x\<close>: the set stored under key \<open>k\<close> exists and holds \<open>x\<close>.\<close>

definition mem :: "('k \<times> 'a list) list \<Rightarrow> 'k \<Rightarrow> 'a \<Rightarrow> bool" where
  "mem m k x = (case Map_get m k of None \<Rightarrow> False | Some xs \<Rightarrow> x \<in> set xs)"

text \<open>Connection \<open>c\<close> is in the member set of room \<open>r\<close>.\<close>

definition in_room :: "state \<Rightarrow> string \<Rightarrow> string \<Rightarrow> bool" where
  "in_room s c r = mem (rooms s) r c"

text \<open>The member set of room \<open>r\<close>, empty when the index has no such room.\<close>

definition members :: "state \<Rightarrow> string \<Rightarrow> string list" where
  "members s r = (case Map_get (rooms s) r of None \<Rightarrow> [] | Some cs \<Rightarrow> cs)"

text \<open>Room \<open>r\<close> is in the room set that \<^verbatim>\<open>userRooms\<close> keeps for the logical id \<open>uid\<close>.\<close>

definition has_room :: "state \<Rightarrow> string \<Rightarrow> string \<Rightarrow> bool" where
  "has_room s uid r = mem (userRooms s) uid r"

text \<open>The live entries of the registry that carry the logical id \<open>uid\<close>.\<close>

definition live_entries :: "state \<Rightarrow> string \<Rightarrow> user list" where
  "live_entries s uid = filter (\<lambda>u. user_id u = uid \<and> isOnline u) (map snd (users s))"

subsection \<open>Scenarios\<close>

text \<open>Two users register on two connections; the second connection then closes.\<close>

definition offline_trace :: "event list" where
  "offline_trace =
     [Connect ''c1'', Register ''c1'' (Some ''u1'') (Some ''Ann'') 1000 ''x1'',
      Connect ''c2'', Register ''c2'' (Some ''u2'') (Some ''Bob'') 2000 ''x2'',
      Disconnect ''c2'' 3000]"

definition offer :: signalData where
  "offer = \<lparr>sig_to = ''u2'', sig_type = ''offer'', sig_body = ''sdp''\<rparr>"

definition hi :: messageData where
  "hi = \<lparr>md_recipientId = ''u2'', md_content = ''hi'', md_type = None\<rparr>"

text \<open>The same logical id registers on two connections.\<close>

definition same_id_trace :: "event list" where
  "same_id_trace =
     [Register ''c1'' (Some ''u1'') (Some ''Ann'') 1000 ''x1'',
      Register ''c2'' (Some ''u1'') (Some ''Ann'') 2000 ''x2'']"

fun is_register :: "event \<Rightarrow> bool" where
  "is_register (Register c userId nm now uuid) = True"
| "is_register e = False"

text \<open>A user registers, joins a room and leaves it again.\<close>

definition lobby_trace :: "event list" where
  "lobby_trace =
     [Connect ''c1'', Register ''c1'' (Some ''u1'') (Some ''Ann'') 1000 ''x1'',
      JoinRoom ''c1'' ''lobby'' True, LeaveRoom ''c1'' ''lobby'' True]"

text \<open>A user's connection closes; the user registers again on a new connection and
  joins a room, and the grace timeout of the closed connection has not run.\<close>

definition reconnect_trace :: "event list" where
  "reconnect_trace =
     [Connect ''c1'', Register ''c1'' (Some ''u1'') (Some ''Ann'') 1000 ''x1'',
      Disconnect ''c1'' 3000,
      Connect ''c2'', Register ''c2'' (Some ''u1'') (Some ''Ann'') 4000 ''x2'',
      JoinRoom ''c2'' ''lobby'' True]"

definition ann_offline :: user where
  "ann_offline = \<lparr>user_id = ''u1'', name = ''Ann'', socketId = ''c1'',
                   lastSeen = 3000, isOnline = False\<rparr>"

definition ann_online :: user where
  "ann_online = \<lparr>user_id = ''u1'', name = ''Ann'', socketId = ''c2'',
                  lastSeen = 4000, isOnline = True\<rparr>"

text \<open>Three users register and join the room \<open>R\<close>.\<close>

definition abc_trace :: "event list" where
  "abc_trace =
     [Connect ''a'', Register ''a'' (Some ''ua'') (Some ''A'') 1000 ''x1'',
      Connect ''b'', Register ''b'' (Some ''ub'') (Some ''B'') 1000 ''x2'',
      Connect ''c'', Register ''c'' (Some ''uc'') (Some ''C'') 1000 ''x3'',
      JoinRoom ''a'' ''R'' True, JoinRoom ''b'' ''R'' True, JoinRoom ''c'' ''R'' True]"

text \<open>Connection \<open>c\<close> closes at time \<open>T\<close>; at time \<open>T + d\<close> the logical id \<open>uid\<close>
  registers on connection \<open>c'\<close>.\<close>

definition reconnect_events ::
  "string \<Rightarrow> string \<Rightarrow> string \<Rightarrow> string option \<Rightarrow> int \<Rightarrow> int \<Rightarrow> string \<Rightarrow> event list" where
  "reconnect_events c c' uid nm T d uuid =
     [Disconnect c T, Advance (T + d), Register c' (Some uid) nm (T + d) uuid]"

text \<open>The element of a \<^verbatim>\<open>user-list\<close> payload that shows a user.\<close>

definition item :: "user \<Rightarrow> user_item" where
  "item u = (user_id u, name u, isOnline u, lastSeen u)"

text \<open>One user registered on one connection.\<close>

definition ann_trace :: "event list" where
  "ann_trace = [Connect ''c1'', Register ''c1'' (Some ''u1'') (Some ''Ann'') 1000 ''x1'']"

subsection \<open>Room symmetry\<close>

text \<open>The two indexes agree on the user of every registry entry.\<close>

definition symmetric :: "state \<Rightarrow> bool" where
  "symmetric s \<longleftrightarrow>
     (\<forall>c u r. Map_get (users s) c = Some u \<longrightarrow> (in_room s c r \<longleftrightarrow> has_room s (user_id u) r))"

text \<open>
  Events as clients with one connection per logical id send them.  socket.io gives a
  new connection an id not used before; a connection registers after it has
  connected, the first time under a logical id that no live entry holds and later
  only under the id it has; it joins and leaves rooms only once registered; only an
  open connection closes.  The periodic sweep is not among these events.
\<close>

fun valid :: "event \<Rightarrow> state \<Rightarrow> bool" where
  "valid (Connect c) s \<longleftrightarrow>
     c \<notin> set (conns s) \<and> Map_get (users s) c = None \<and> c \<notin> set (map snd (timers s))"
| "valid (Register c userId nm now uuid) s \<longleftrightarrow>
     c \<in> set (conns s) \<and>
     (case Map_get (users s) c of
        None \<Rightarrow> live_entries s (or_else userId uuid) = []
      | Some u \<Rightarrow> user_id u = or_else userId uuid)"
| "valid (JoinRoom c r cb) s \<longleftrightarrow> c \<in> set (conns s) \<and> Map_has (users s) c"
| "valid (LeaveRoom c r cb) s \<longleftrightarrow> c \<in> set (conns s) \<and> Map_has (users s) c"
| "valid (Disconnect c now) s \<longleftrightarrow> c \<in> set (conns s)"
| "valid (Sweep now) s \<longleftrightarrow> False"
| "valid e s \<longleftrightarrow> True"

fun valid_trace :: "event list \<Rightarrow> state \<Rightarrow> bool" where
  "valid_trace [] s \<longleftrightarrow> True"
| "valid_trace (e # es) s \<longleftrightarrow> valid e s \<and> valid_trace es (fst (step e s))"

text \<open>Connection \<open>c\<close> has a live registry entry.\<close>

definition live :: "state \<Rightarrow> string \<Rightarrow> bool" where
  "live s c \<longleftrightarrow> (case Map_get (users s) c of None \<Rightarrow> False | Some u \<Rightarrow> isOnline u)"

text \<open>What such events keep true of the state: a live entry belongs to an open
  connection; the entry of an open connection is live; no deletion is scheduled for
  an open connection; the members of rooms have live entries; a room set belongs to the
  id of a live entry; live entries have different ids; and the two indexes agree on
  every live entry.\<close>

definition live_connected :: "state \<Rightarrow> bool" where
  "live_connected s \<longleftrightarrow> (\<forall>c. live s c \<longrightarrow> c \<in> set (conns s))"

definition connected_live :: "state \<Rightarrow> bool" where
  "connected_live s \<longleftrightarrow>
     (\<forall>c u. Map_get (users s) c = Some u \<and> c \<in> set (conns s) \<longrightarrow> isOnline u)"

definition open_unscheduled :: "state \<Rightarrow> bool" where
  "open_unscheduled s \<longleftrightarrow> (\<forall>c \<in> set (conns s). c \<notin> set (map snd (timers s)))"

definition members_live :: "state \<Rightarrow> bool" where
  "members_live s \<longleftrightarrow> (\<forall>c r. in_room s c r \<longrightarrow> live s c)"

definition room_sets_owned :: "state \<Rightarrow> bool" where
  "room_sets_owned s \<longleftrightarrow>
     (\<forall>uid r. has_room s uid r \<longrightarrow>
        (\<exists>c u. Map_get (users s) c = Some u \<and> isOnline u \<and> user_id u = uid))"

definition live_ids_unique :: "state \<Rightarrow> bool" where
  "live_ids_unique s \<longleftrightarrow>
     (\<forall>c c' u u'. Map_get (users s) c = Some u \<and> Map_get (users s) c' = Some u' \<and>
        isOnline u \<and> isOnline u' \<and> user_id u = user_id u' \<longrightarrow> c = c')"

definition symmetric_live :: "state \<Rightarrow> bool" where
  "symmetric_live s \<longleftrightarrow>
     (\<forall>c u r. Map_get (users s) c = Some u \<and> isOnline u \<longrightarrow>
        (in_room s c r \<longleftrightarrow> has_room s (user_id u) r))"

definition consistent :: "state \<Rightarrow> bool" where
  "consistent s \<longleftrightarrow>
     live_connected s \<and> connected_live s \<and> open_unscheduled s \<and> members_live s \<and>
     room_sets_owned s \<and> live_ids_unique s \<and> symmetric_live s"

text \<open>Two connections register the same logical id, and the first joins a room.\<close>

definition two_tabs_trace :: "event list" where
  "two_tabs_trace =
     [Connect ''c1'', Register ''c1'' (Some ''u1'') (Some ''Ann'') 1000 ''x1'',
      Connect ''c2'', Register ''c2'' (Some ''u1'') (Some ''Ann'') 2000 ''x2'',
      JoinRoom ''c1'' ''lobby'' True]"

text \<open>Two users on two connections; both join a room, one leaves it, the other closes.\<close>

definition rooms_trace :: "event list" where
  "rooms_trace =
     [Connect ''c1'', Register ''c1'' (Some ''u1'') (Some ''Ann'') 1000 ''x1'',
      Connect ''c2'', Register ''c2'' (Some ''u2'') (Some ''Bob'') 2000 ''x2'',
      JoinRoom ''c1'' ''lobby'' True, JoinRoom ''c2'' ''lobby'' True,
      LeaveRoom ''c1'' ''lobby'' True, Disconnect ''c2'' 3000]"

text \<open>A connection joins a room before it registers.\<close>

definition early_join_trace :: "event list" where
  "early_join_trace =
     [Connect ''c1'', JoinRoom ''c1'' ''lobby'' True,
      Register ''c1'' (Some ''u1'') (Some ''Ann'') 1000 ''x1'']"

section \<open>Properties\<close>

subsection \<open>The containers\<close>

lemma set_update_subset: "set (AList.update k v al) \<subseteq> insert (k, v) (set al)"
  by (induction al) auto

lemma map_of_index_add:
  "map_of (index_add k x m) k' =
     (if k' = k then Some (Set_add x (case map_of m k of None \<Rightarrow> [] | Some xs \<Rightarrow> xs)) else map_of m k')"
  by (auto simp: index_add_def Let_def AList.update_conv' split: option.splits)

lemma map_of_room_remove:
  "map_of (room_remove r c m) r' =
     (if r' = r then (case map_of m r of None \<Rightarrow> None
                       | Some xs \<Rightarrow> if Set_delete c xs = [] then None else Some (Set_delete c xs))
      else map_of m r')"
  by (auto simp: room_remove_def Let_def AList.update_conv' AList.delete_conv' split: option.splits)

lemma mem_index_add: "mem (index_add k x m) k' x' \<longleftrightarrow> (k' = k \<and> x' = x) \<or> mem m k' x'"
  by (auto simp: mem_def map_of_index_add Set_add_def split: option.splits)

lemma removeAll_Nil_D: "removeAll c xs = [] \<Longrightarrow> x \<in> set xs \<Longrightarrow> x = c"
  by (induction xs) (auto split: if_splits)

lemma mem_room_remove: "mem (room_remove r c m) r' c' \<longleftrightarrow> mem m r' c' \<and> \<not> (r' = r \<and> c' = c)"
  by (auto simp: mem_def map_of_room_remove Set_delete_def dest: removeAll_Nil_D split: option.splits)

lemma mem_delete: "mem (Map_delete k m) k' x \<longleftrightarrow> k' \<noteq> k \<and> mem m k' x"
  by (auto simp: mem_def AList.delete_conv' split: option.splits)

lemma index_add_idem: "index_add k x (index_add k x m) = index_add k x m"
proof -
  obtain xs where xs: "map_of (index_add k x m) k = Some xs" "x \<in> set xs"
    by (auto simp: map_of_index_add Set_add_def)
  then have "Set_add x xs = xs" by (simp add: Set_add_def)
  with xs show ?thesis
    unfolding index_add_def[of k x "index_add k x m"] by (simp add: Let_def AList.update_triv)
qed

lemma room_remove_idem: "room_remove r c (room_remove r c m) = room_remove r c m"
proof (cases "map_of (room_remove r c m) r")
  case None
  then show ?thesis unfolding room_remove_def[of r c "room_remove r c m"] by simp
next
  case (Some ys)
  then have "Set_delete c ys = ys" "ys \<noteq> []"
    by (auto simp: map_of_room_remove Set_delete_def split: option.splits if_splits)
  with Some show ?thesis
    unfolding room_remove_def[of r c "room_remove r c m"] by (simp add: Let_def AList.update_triv)
qed

lemma Set_add_idem: "Set_add x (Set_add x xs) = Set_add x xs"
  by (simp add: Set_add_def)

lemma Set_delete_idem: "Set_delete x (Set_delete x xs) = Set_delete x xs"
  by (simp add: Set_delete_def)

lemma join_room_twice: "fst (join_room c r cb' (fst (join_room c r cb s))) = fst (join_room c r cb s)"
  by (cases "map_of (users s) c")
     (simp_all add: join_room_def Let_def socket_join_def Set_add_idem index_add_idem)

lemma leave_room_twice: "fst (leave_room c r cb' (fst (leave_room c r cb s))) = fst (leave_room c r cb s)"
  by (cases "map_of (users s) c")
     (auto simp: leave_room_def Let_def socket_leave_def Set_delete_idem room_remove_idem
         AList.update_conv' split: option.splits)

subsection \<open>Joining and leaving twice\<close>

text \<open>
  Claim C9.  Joining a room twice leaves the server in the state one join leaves it in,
  and the second call still acknowledges success; the same for leaving a room twice,
  and a leave acknowledges success in any state, also for a room never joined.
\<close>

theorem C9_join_leave_idempotent:
  "fst (join_room c r cb (fst (join_room c r cb s))) = fst (join_room c r cb s)
   \<and> (Ack c, JoinAck True r) \<in> set (snd (join_room c r True (fst (join_room c r cb s))))
   \<and> fst (leave_room c r cb (fst (leave_room c r cb s))) = fst (leave_room c r cb s)
   \<and> (Ack c, LeaveAck True) \<in> set (snd (leave_room c r True (fst (leave_room c r cb s))))
   \<and> (Ack c, LeaveAck True) \<in> set (snd (leave_room c r True s))"
  using join_room_twice[of c r cb cb s] leave_room_twice[of c r cb cb s]
  by (simp add: join_room_def leave_room_def Let_def)

subsection \<open>Evaluating the handlers\<close>

lemmas handler_defs =
  register_user_def connection_def disconnect_def join_room_def leave_room_def
  index_add_def room_remove_def Set_add_def Set_delete_def or_else_def
  socket_join_def socket_leave_def broadcastUserList_def userList_def gracePeriod_def
  timeout_callback_def advance_def initial_def Let_def

lemma offline_state:
  "run offline_trace initial =
     \<lparr>users = [(''c1'', \<lparr>user_id = ''u1'', name = ''Ann'', socketId = ''c1'',
                            lastSeen = 1000, isOnline = True\<rparr>),
               (''c2'', \<lparr>user_id = ''u2'', name = ''Bob'', socketId = ''c2'',
                            lastSeen = 3000, isOnline = False\<rparr>)],
      rooms = [(''user_u1'', [''c1''])],
      userRooms = [(''u1'', [''user_u1''])],
      timers = [(8000, ''c2'')],
      conns = [''c1''],
      groups = [(''user_u1'', ''c1'')]\<rparr>"
  by (simp add: offline_trace_def handler_defs)

subsection \<open>Signals\<close>

lemma find_user_None: "find_user s x = None \<longleftrightarrow> (\<forall>p \<in> set (users s). user_id (snd p) \<noteq> x)"
  by (auto simp: find_user_def find_None_iff)

lemma find_user_Some: "find_user s x = Some t \<Longrightarrow> user_id t = x \<and> t \<in> snd ` set (users s)"
  by (auto simp: find_user_def find_Some_iff)

lemma signal_unregistered: "Map_get (users s) c = None \<Longrightarrow> signal c d now s = []"
  by (simp add: signal_def)

lemma signal_no_entry:
  "Map_get (users s) c = Some usr \<Longrightarrow> \<forall>p \<in> set (users s). user_id (snd p) \<noteq> sig_to d \<Longrightarrow>
   signal c d now s = [(SendTo c, SignalError ''User not found or offline'' (sig_to d) d)]"
  using find_user_None[of s "sig_to d"] by (simp add: signal_def)

lemma signal_entry:
  "Map_get (users s) c = Some usr \<Longrightarrow> find_user s (sig_to d) = Some t \<Longrightarrow>
   signal c d now s = [(SendTo (socketId t), SignalMsg d (user_id usr) (name usr) now)]"
  by (simp add: signal_def)

text \<open>
  Claim C2.  A signal whose target has a registry entry that is offline should not be
  delivered: the sender should get exactly one \<^verbatim>\<open>signal-error\<close>.  The handler looks the
  target up by id only, so with the target's entry offline (its connection closed, the
  entry kept for the grace period) it sends the signal to the closed connection and
  the sender gets nothing.
\<close>

theorem C2_signal_sent_to_offline_entry:
  "map_option isOnline (find_user (run offline_trace initial) ''u2'') = Some False
   \<and> signal ''c1'' offer 3500 (run offline_trace initial)
       = [(SendTo ''c2'', SignalMsg offer ''u1'' ''Ann'' 3500)]"
  by (simp add: offline_state signal_def find_user_def offer_def)

subsection \<open>Chat messages\<close>

lemma chat_unregistered: "Map_get (users s) c = None \<Longrightarrow> chat_message c d now uuid s = []"
  by (simp add: chat_message_def)

lemma chat_no_entry:
  "Map_get (users s) c = Some usr \<Longrightarrow> \<forall>p \<in> set (users s). user_id (snd p) \<noteq> md_recipientId d \<Longrightarrow>
   chat_message c d now uuid s = [(SendTo c, MessageOffline uuid (md_recipientId d) now)]"
  using find_user_None[of s "md_recipientId d"] by (simp add: chat_message_def Let_def)

lemma chat_entry:
  "Map_get (users s) c = Some usr \<Longrightarrow> find_user s (md_recipientId d) = Some t \<Longrightarrow>
   chat_message c d now uuid s =
     [(SendTo (socketId t),
       ChatMessage \<lparr>msg_id = uuid, senderId = user_id usr, senderName = name usr,
                    recipientId = md_recipientId d, content = md_content d, timestamp = now,
                    msg_type = or_else (md_type d) ''text'', deliveryStatus = ''sent''\<rparr>),
      (SendTo c, MessageDelivered uuid (user_id t) now)]"
  by (simp add: chat_message_def Let_def)

text \<open>
  Claim C6.  A chat message whose recipient is offline should yield a
  \<^verbatim>\<open>message-offline\<close> to the sender.  With the recipient's entry offline the handler
  sends the envelope to the closed connection and confirms delivery to the sender.
\<close>

theorem C6_chat_sent_to_offline_entry:
  "map_option isOnline (find_user (run offline_trace initial) ''u2'') = Some False
   \<and> chat_message ''c1'' hi 3500 ''m1'' (run offline_trace initial)
       = [(SendTo ''c2'',
           ChatMessage \<lparr>msg_id = ''m1'', senderId = ''u1'', senderName = ''Ann'',
                        recipientId = ''u2'', content = ''hi'', timestamp = 3500,
                        msg_type = ''text'', deliveryStatus = ''sent''\<rparr>),
          (SendTo ''c1'', MessageDelivered ''m1'' ''u2'' 3500)]"
  by (simp add: offline_state chat_message_def find_user_def hi_def or_else_def)

subsection \<open>The users listing\<close>

text \<open>
  Claim C7.  The listing of \<^verbatim>\<open>GET /users\<close> should hold exactly the online users.  It
  holds every entry of the registry, each marked online: here the entry of the closed
  connection \<open>c2\<close>, which the registry has as offline.
\<close>

theorem C7_listing_shows_offline_entry:
  "Map_get (users (run offline_trace initial)) ''c2''
     = Some \<lparr>user_id = ''u2'', name = ''Bob'', socketId = ''c2'', lastSeen = 3000, isOnline = False\<rparr>
   \<and> get_users (run offline_trace initial)
       = [(''u1'', ''Ann'', True, 1000), (''u2'', ''Bob'', True, 3000)]"
  by (simp add: offline_state get_users_def)

subsection \<open>Registration\<close>

lemma run_append: "run (xs @ ys) s = run ys (run xs s)"
  by (induction xs arbitrary: s) auto

lemma in_set_updateD: "p \<in> set (AList.update k v al) \<Longrightarrow> p = (k, v) \<or> p \<in> set al"
  using set_update_subset[of k v al] by auto

lemma users_register_user:
  "users (fst (register_user c userId nm now uuid s)) =
     Map_set c \<lparr>user_id = or_else userId uuid, name = or_else nm (''User_'' @ take 6 c),
                socketId = c, lastSeen = now, isOnline = True\<rparr> (users s)"
  by (simp add: register_user_def Let_def)

lemma registers_keep_live:
  assumes "list_all is_register evs"
    and "distinct (map fst (users s))"
    and "\<forall>p \<in> set (users s). isOnline (snd p) \<and> socketId (snd p) = fst p"
  shows "distinct (map fst (users (run evs s))) \<and>
         (\<forall>p \<in> set (users (run evs s)). isOnline (snd p) \<and> socketId (snd p) = fst p)"
  using assms
proof (induction evs arbitrary: s)
  case Nil
  then show ?case by simp
next
  case (Cons e evs)
  from Cons.prems(1) obtain c userId nm now uuid where e: "e = Register c userId nm now uuid"
    by (cases e) auto
  let ?s = "fst (step e s)"
  have d: "distinct (map fst (users ?s))"
    using Cons.prems(2) by (simp add: e users_register_user AList.distinct_update)
  have l: "\<forall>p \<in> set (users ?s). isOnline (snd p) \<and> socketId (snd p) = fst p"
    using Cons.prems(3)
    by (auto simp: e users_register_user dest!: in_set_updateD)
  from Cons.IH[OF _ d l] Cons.prems(1) show ?case by simp
qed

text \<open>
  Claim C1, as the code has it.  The registry is keyed by connection: after any
  sequence of registrations it holds at most one entry per connection id, every entry
  is live and bound to its connection, and a registration with the logical id of an
  entry of another connection leaves that entry in place, live, next to the new one.
\<close>

theorem C1_one_live_entry_per_connection:
  assumes "list_all is_register evs"
  shows "distinct (map fst (users (run evs initial)))
     \<and> (\<forall>p \<in> set (users (run evs initial)). isOnline (snd p) \<and> socketId (snd p) = fst p)
     \<and> (\<forall>c1 u1 c2 nm now uuid.
          Map_get (users (run evs initial)) c1 = Some u1 \<and> c2 \<noteq> c1 \<and> user_id u1 \<noteq> [] \<longrightarrow>
          Map_get (users (run (evs @ [Register c2 (Some (user_id u1)) nm now uuid]) initial)) c1
            = Some u1
          \<and> (\<exists>u2. Map_get (users (run (evs @ [Register c2 (Some (user_id u1)) nm now uuid])
                                     initial)) c2 = Some u2
                   \<and> user_id u2 = user_id u1 \<and> isOnline u2))"
proof -
  have "distinct (map fst (users initial))"
    and "\<forall>p \<in> set (users initial). isOnline (snd p) \<and> socketId (snd p) = fst p"
    by (simp_all add: initial_def)
  from registers_keep_live[OF assms this]
  have a: "distinct (map fst (users (run evs initial)))
     \<and> (\<forall>p \<in> set (users (run evs initial)). isOnline (snd p) \<and> socketId (snd p) = fst p)" .
  have b: "Map_get (users (run (evs @ [Register c2 (Some (user_id u1)) nm now uuid]) initial)) c1
            = Some u1
          \<and> (\<exists>u2. Map_get (users (run (evs @ [Register c2 (Some (user_id u1)) nm now uuid])
                                     initial)) c2 = Some u2
                   \<and> user_id u2 = user_id u1 \<and> isOnline u2)"
    if "Map_get (users (run evs initial)) c1 = Some u1" "c2 \<noteq> c1" "user_id u1 \<noteq> []"
    for c1 u1 c2 nm now uuid
    using that by (simp add: run_append users_register_user AList.update_conv' or_else_def)
  from a b show ?thesis by blast
qed

text \<open>
  Claim C1 as stated (at most one live entry per logical id) fails: after two
  connections register the id \<open>u1\<close> the registry holds two live entries for it.
\<close>

theorem C1_two_live_entries_for_one_id:
  "length (live_entries (run same_id_trace initial) ''u1'') = 2"
  by (simp add: same_id_trace_def live_entries_def register_user_def Let_def initial_def
      index_add_def Set_add_def or_else_def socket_join_def broadcastUserList_def userList_def)

theorem C1_one_live_entry_per_connection_witness:
  "list_all is_register same_id_trace
   \<and> distinct (map fst (users (run same_id_trace initial)))
   \<and> Map_get (users (run (same_id_trace @ [Register ''c3'' (Some ''u1'') None 3000 ''x3'']) initial)) ''c1''
       = Some \<lparr>user_id = ''u1'', name = ''Ann'', socketId = ''c1'', lastSeen = 1000, isOnline = True\<rparr>"
proof -
  have r: "list_all is_register same_id_trace"
    by (simp add: same_id_trace_def)
  have u: "Map_get (users (run same_id_trace initial)) ''c1''
       = Some \<lparr>user_id = ''u1'', name = ''Ann'', socketId = ''c1'', lastSeen = 1000, isOnline = True\<rparr>"
    by (simp add: same_id_trace_def register_user_def Let_def initial_def
      index_add_def Set_add_def or_else_def socket_join_def broadcastUserList_def userList_def)
  from C1_one_live_entry_per_connection[OF r]
  have d: "distinct (map fst (users (run same_id_trace initial)))"
    and k: "\<And>c1 u1 c2 nm now uuid.
          Map_get (users (run same_id_trace initial)) c1 = Some u1 \<and> c2 \<noteq> c1 \<and> user_id u1 \<noteq> [] \<Longrightarrow>
          Map_get (users (run (same_id_trace @ [Register c2 (Some (user_id u1)) nm now uuid]) initial)) c1
            = Some u1"
    by blast+
  from k[of "''c1''" _ "''c3''" None 3000 "''x3''"] u
  have "Map_get (users (run (same_id_trace @ [Register ''c3'' (Some ''u1'') None 3000 ''x3'']) initial)) ''c1''
       = Some \<lparr>user_id = ''u1'', name = ''Ann'', socketId = ''c1'', lastSeen = 1000, isOnline = True\<rparr>"
    by simp
  with r d show ?thesis by simp
qed

subsection \<open>What each handler writes\<close>

lemma index_add_eq:
  "index_add k x m = Map_set k (Set_add x (case Map_get m k of None \<Rightarrow> [] | Some xs \<Rightarrow> xs)) m"
  by (auto simp: index_add_def Let_def AList.update_conv' split: option.splits)

lemma room_remove_eq:
  "room_remove r c m =
     (case Map_get m r of
        None \<Rightarrow> m
      | Some xs \<Rightarrow> if Set_delete c xs = [] then Map_delete r m else Map_set r (Set_delete c xs) m)"
  by (auto simp: room_remove_def Let_def AList.delete_update_same split: option.splits)

lemma in_set_deleteD: "p \<in> set (AList.delete k al) \<Longrightarrow> p \<in> set al"
  by (auto simp: AList.delete_eq)

lemma fst_disconnect_rooms:
  "fst (disconnect_rooms c usr rs rm) = fold (\<lambda>r. room_remove r c) rs rm"
  by (induction rs arbitrary: rm) (simp_all add: Let_def split_beta)

lemma rooms_register_user:
  "rooms (fst (register_user c userId nm now uuid s)) =
     index_add (''user_'' @ or_else userId uuid) c (rooms s)"
  by (simp add: register_user_def Let_def)

lemma rooms_join_room: "rooms (fst (join_room c r cb s)) = index_add r c (rooms s)"
  by (simp add: join_room_def Let_def split: option.splits)

lemma rooms_leave_room: "rooms (fst (leave_room c r cb s)) = room_remove r c (rooms s)"
  by (simp add: leave_room_def Let_def split: option.splits)

lemma rooms_disconnect:
  "rooms (fst (disconnect c now s)) =
     (case Map_get (users s) c of
        None \<Rightarrow> rooms s
      | Some u \<Rightarrow>
          (case Map_get (userRooms s) (user_id u) of
             None \<Rightarrow> rooms s
           | Some rs \<Rightarrow> fold (\<lambda>r. room_remove r c) rs (rooms s)))"
  by (simp add: disconnect_def Let_def split_beta fst_disconnect_rooms split: option.splits)

lemma rooms_run_timers: "rooms (fst (run_timers cs s)) = rooms s"
  by (induction cs arbitrary: s) (simp_all add: timeout_callback_def Let_def split_beta)

lemma rooms_advance: "rooms (fst (advance now s)) = rooms s"
  by (simp add: advance_def Let_def rooms_run_timers)

lemma rooms_cleanup_loop: "rooms (cleanup_loop now es s) = rooms s"
  by (induction es arbitrary: s) (auto simp: Let_def)

lemma rooms_cleanup: "rooms (cleanup now s) = rooms s"
  by (simp add: cleanup_def rooms_cleanup_loop)

subsection \<open>No room is empty\<close>

lemma Set_add_nonempty: "Set_add x xs \<noteq> []" "[] \<noteq> Set_add x xs"
  by (auto simp: Set_add_def)

lemma index_add_no_empty: "[] \<notin> snd ` set m \<Longrightarrow> [] \<notin> snd ` set (index_add k x m)"
proof
  assume a: "[] \<notin> snd ` set m" and "[] \<in> snd ` set (index_add k x m)"
  then obtain k' where "(k', []) \<in> set (index_add k x m)" by force
  then have "(k', []) \<in> set m"
    by (auto simp: index_add_eq Set_add_nonempty dest!: in_set_updateD)
  with a show False by force
qed

lemma room_remove_no_empty: "[] \<notin> snd ` set m \<Longrightarrow> [] \<notin> snd ` set (room_remove r c m)"
  by (auto simp: room_remove_eq dest!: in_set_updateD in_set_deleteD split: option.splits if_splits)

lemma fold_room_remove_no_empty:
  "[] \<notin> snd ` set m \<Longrightarrow> [] \<notin> snd ` set (fold (\<lambda>r. room_remove r c) rs m)"
  by (induction rs arbitrary: m) (simp_all add: room_remove_no_empty)

lemma step_no_empty:
  assumes "[] \<notin> snd ` set (rooms s)"
  shows "[] \<notin> snd ` set (rooms (fst (step e s)))"
proof (cases e)
  case (Register c userId nm now uuid)
  then show ?thesis using assms by (simp add: rooms_register_user index_add_no_empty)
next
  case (JoinRoom c r cb)
  then show ?thesis using assms by (simp add: rooms_join_room index_add_no_empty)
next
  case (LeaveRoom c r cb)
  then show ?thesis using assms by (simp add: rooms_leave_room room_remove_no_empty)
next
  case (Disconnect c now)
  then show ?thesis using assms
    by (simp add: rooms_disconnect fold_room_remove_no_empty split: option.splits)
next
  case (Advance now)
  then show ?thesis using assms by (simp add: rooms_advance)
next
  case (Sweep now)
  then show ?thesis using assms by (simp add: rooms_cleanup)
qed (use assms in \<open>simp_all add: connection_def\<close>)

lemma run_no_empty: "[] \<notin> snd ` set (rooms s) \<Longrightarrow> [] \<notin> snd ` set (rooms (run es s))"
  by (induction es arbitrary: s) (simp_all add: step_no_empty)

lemma no_empty_members:
  assumes "[] \<notin> snd ` set (rooms s)" and "members s r = []"
  shows "Map_get (rooms s) r = None"
proof (cases "Map_get (rooms s) r")
  case (Some cs)
  then have "(r, cs) \<in> set (rooms s)" by (rule map_of_SomeD)
  with assms(1) have "cs \<noteq> []" by force
  with Some assms(2) show ?thesis by (simp add: members_def)
qed simp

text \<open>
  Claim C5.  After every sequence of events no room of the index has an empty member
  set; so a room whose member set a leave or a disconnect has emptied is no longer in
  the index.
\<close>

theorem C5_no_empty_room:
  "[] \<notin> snd ` set (rooms (run evs initial))
   \<and> (members (run evs initial) r = [] \<longrightarrow> Map_get (rooms (run evs initial)) r = None)"
proof -
  have "[] \<notin> snd ` set (rooms initial)" by (simp add: initial_def)
  then have "[] \<notin> snd ` set (rooms (run evs initial))" by (rule run_no_empty)
  then show ?thesis by (simp add: no_empty_members)
qed

lemma lobby_state:
  "run lobby_trace initial =
     \<lparr>users = [(''c1'', \<lparr>user_id = ''u1'', name = ''Ann'', socketId = ''c1'',
                            lastSeen = 1000, isOnline = True\<rparr>)],
      rooms = [(''user_u1'', [''c1''])],
      userRooms = [(''u1'', [''user_u1''])],
      timers = [],
      conns = [''c1''],
      groups = [(''user_u1'', ''c1'')]\<rparr>"
  by (simp add: lobby_trace_def handler_defs)

theorem C5_no_empty_room_witness:
  "members (run lobby_trace initial) ''lobby'' = []
   \<and> Map_get (rooms (run lobby_trace initial)) ''lobby'' = None
   \<and> [] \<notin> snd ` set (rooms (run lobby_trace initial))"
proof -
  have m: "members (run lobby_trace initial) ''lobby'' = []"
    by (simp add: lobby_state members_def)
  with C5_no_empty_room[of lobby_trace "''lobby''"] show ?thesis by simp
qed

subsection \<open>The periodic sweep\<close>

lemma delete_absent: "Map_get m k = None \<Longrightarrow> Map_delete k m = m"
  by (simp add: map_of_eq_None_iff)

lemma cleanup_loop_Cons:
  "cleanup_loop now ((k, u) # es) s =
     cleanup_loop now es
       (if stale now u
        then s\<lparr>users := Map_delete k (users s), userRooms := Map_delete (user_id u) (userRooms s)\<rparr>
        else s)"
proof (cases "Map_get (userRooms s) (user_id u)")
  case None
  then have "Map_delete (user_id u) (userRooms s) = userRooms s" by (rule delete_absent)
  with None show ?thesis by (simp add: stale_def Let_def)
next
  case (Some rs)
  then show ?thesis by (simp add: stale_def Let_def)
qed

lemma users_cleanup_loop:
  "Map_get (users (cleanup_loop now es s)) k =
     (if \<exists>u. (k, u) \<in> set es \<and> stale now u then None else Map_get (users s) k)"
proof (induction es arbitrary: s)
  case Nil
  then show ?case by simp
next
  case (Cons e es)
  obtain k' u' where e: "e = (k', u')" by (cases e)
  show ?case
    unfolding e cleanup_loop_Cons Cons.IH
    by (auto simp: AList.delete_conv')
qed

lemma userRooms_cleanup_loop:
  "Map_get (userRooms (cleanup_loop now es s)) k =
     (if \<exists>p \<in> set es. user_id (snd p) = k \<and> stale now (snd p) then None
      else Map_get (userRooms s) k)"
proof (induction es arbitrary: s)
  case Nil
  then show ?case by simp
next
  case (Cons e es)
  obtain k' u' where e: "e = (k', u')" by (cases e)
  show ?case
    unfolding e cleanup_loop_Cons Cons.IH
    by (auto simp: AList.delete_conv')
qed

text \<open>
  Claim C10.  When the sweep removes a stale entry (offline, last seen longer ago than
  the threshold) with logical id \<open>u\<close>, it deletes the whole room set that
  \<^verbatim>\<open>userRooms\<close> keeps for \<open>u\<close>, also when another connection holds a live entry
  with the same id: that entry stays in the registry, online, and has lost its room
  set.
\<close>

theorem C10_sweep_erases_room_set_of_live_user:
  assumes "distinct (map fst (users s))"
    and "Map_get (users s) c_old = Some u_old" and "stale now u_old"
    and "Map_get (users s) c_new = Some u_new" and "isOnline u_new"
    and "user_id u_new = user_id u_old"
    and "Map_get (userRooms s) (user_id u_old) = Some rs"
  shows "Map_get (users (cleanup now s)) c_old = None
     \<and> Map_get (users (cleanup now s)) c_new = Some u_new
     \<and> Map_get (userRooms (cleanup now s)) (user_id u_new) = None"
proof -
  have old: "(c_old, u_old) \<in> set (users s)"
    using assms(2) by (rule map_of_SomeD)
  have "\<not> stale now u" if "(c_new, u) \<in> set (users s)" for u
  proof -
    from that assms(1) have "Map_get (users s) c_new = Some u" by simp
    with assms(4,5) show ?thesis by (simp add: stale_def)
  qed
  then have new: "\<not> (\<exists>u. (c_new, u) \<in> set (users s) \<and> stale now u)" by blast
  have 1: "Map_get (users (cleanup now s)) c_old = None"
    using old assms(3) by (auto simp: cleanup_def users_cleanup_loop)
  have 2: "Map_get (users (cleanup now s)) c_new = Some u_new"
    using new assms(4) by (simp add: cleanup_def users_cleanup_loop)
  have 3: "Map_get (userRooms (cleanup now s)) (user_id u_new) = None"
    using old assms(3,6) by (force simp: cleanup_def userRooms_cleanup_loop)
  from 1 2 3 show ?thesis by simp
qed

lemma reconnect_state:
  "run reconnect_trace initial =
     \<lparr>users = [(''c1'', ann_offline), (''c2'', ann_online)],
      rooms = [(''user_u1'', [''c2'']), (''lobby'', [''c2''])],
      userRooms = [(''u1'', [''user_u1'', ''lobby''])],
      timers = [(8000, ''c1'')],
      conns = [''c2''],
      groups = [(''user_u1'', ''c2''), (''lobby'', ''c2'')]\<rparr>"
  by (simp add: reconnect_trace_def ann_offline_def ann_online_def handler_defs)

theorem C10_sweep_erases_room_set_of_live_user_witness:
  "Map_get (userRooms (run reconnect_trace initial)) ''u1'' = Some [''user_u1'', ''lobby'']
   \<and> Map_get (users (cleanup 400000 (run reconnect_trace initial))) ''c1'' = None
   \<and> Map_get (users (cleanup 400000 (run reconnect_trace initial))) ''c2'' = Some ann_online
   \<and> Map_get (userRooms (cleanup 400000 (run reconnect_trace initial))) ''u1'' = None"
proof -
  let ?s = "run reconnect_trace initial"
  have d: "distinct (map fst (users ?s))" by (simp add: reconnect_state)
  have o: "Map_get (users ?s) ''c1'' = Some ann_offline" by (simp add: reconnect_state)
  have st: "stale 400000 ann_offline"
    by (simp add: stale_def ann_offline_def inactiveThreshold_def)
  have n: "Map_get (users ?s) ''c2'' = Some ann_online" by (simp add: reconnect_state)
  have l: "isOnline ann_online" by (simp add: ann_online_def)
  have i: "user_id ann_online = user_id ann_offline"
    by (simp add: ann_online_def ann_offline_def)
  have r: "Map_get (userRooms ?s) (user_id ann_offline) = Some [''user_u1'', ''lobby'']"
    by (simp add: reconnect_state ann_offline_def)
  from C10_sweep_erases_room_set_of_live_user[OF d o st n l i r] r show ?thesis
    by (simp add: ann_online_def ann_offline_def)
qed

subsection \<open>Join notifications\<close>

lemma group_members_socket_join:
  "set (group_members g gs) \<subseteq> set (group_members g (socket_join c g' gs))"
  by (auto simp: group_members_def socket_join_def Set_add_def)

lemma groups_join_room: "groups (fst (join_room c r cb s)) = socket_join c r (groups s)"
  by (simp add: join_room_def Let_def split: option.splits)

lemma join_room_notifies:
  "(BroadcastToGroup r c,
    UserJoinedRoom (map_option user_id (Map_get (users s) c))
                   (map_option name (Map_get (users s) c)) r)
     \<in> set (snd (join_room c r cb s))"
  by (simp add: join_room_def Let_def)

lemma deliveries_member:
  "(t, p) \<in> set es \<Longrightarrow> d \<in> set (recipients s t) \<Longrightarrow> (d, p) \<in> set (deliveries s es)"
  by (force simp: deliveries_def)

lemma rejoin_keeps_rooms:
  assumes "in_room s a r"
  shows "rooms (fst (join_room a r cb s)) = rooms s"
proof -
  from assms obtain xs where xs: "Map_get (rooms s) r = Some xs" "a \<in> set xs"
    by (auto simp: in_room_def mem_def split: option.splits)
  then have "Set_add a xs = xs" by (simp add: Set_add_def)
  with xs show ?thesis by (simp add: rooms_join_room index_add_eq AList.update_triv)
qed

text \<open>
  Claim C8, as the code has it.  When \<open>a\<close> is already a member of room \<open>r\<close> and joins
  it again, the map \<^verbatim>\<open>rooms\<close> is left as it was, and the handler emits
  \<^verbatim>\<open>user-joined-room\<close> to the group without \<open>a\<close> once more: every other connection \<open>b\<close>
  of the group receives it.  (The room set of the user of \<open>a\<close> is not covered: it gains
  \<open>r\<close> when \<open>a\<close> had joined \<open>r\<close> before registering.)
\<close>

theorem C8_redundant_join_notifies:
  assumes "in_room s a r" and "b \<in> set (group_members r (groups s))" and "b \<noteq> a"
  shows "rooms (fst (join_room a r cb s)) = rooms s
     \<and> (BroadcastToGroup r a,
         UserJoinedRoom (map_option user_id (Map_get (users s) a))
                        (map_option name (Map_get (users s) a)) r)
          \<in> set (snd (join_room a r cb s))
     \<and> (b, UserJoinedRoom (map_option user_id (Map_get (users s) a))
                            (map_option name (Map_get (users s) a)) r)
          \<in> set (deliveries (fst (join_room a r cb s)) (snd (join_room a r cb s)))"
proof -
  have "b \<in> set (group_members r (groups (fst (join_room a r cb s))))"
    using assms(2) group_members_socket_join[of r "groups s" a r]
    by (auto simp: groups_join_room)
  then have "b \<in> set (room_sockets (fst (join_room a r cb s)) r)"
    by (simp add: room_sockets_def)
  with assms(3) have "b \<in> set (recipients (fst (join_room a r cb s)) (BroadcastToGroup r a))"
    by simp
  with join_room_notifies[of r a s cb]
  have "(b, UserJoinedRoom (map_option user_id (Map_get (users s) a))
                           (map_option name (Map_get (users s) a)) r)
          \<in> set (deliveries (fst (join_room a r cb s)) (snd (join_room a r cb s)))"
    by (rule deliveries_member)
  with rejoin_keeps_rooms[OF assms(1), of cb] join_room_notifies[of r a s cb]
  show ?thesis by simp
qed

lemma abc_state:
  "run abc_trace initial =
     \<lparr>users = [(''a'', \<lparr>user_id = ''ua'', name = ''A'', socketId = ''a'',
                           lastSeen = 1000, isOnline = True\<rparr>),
               (''b'', \<lparr>user_id = ''ub'', name = ''B'', socketId = ''b'',
                           lastSeen = 1000, isOnline = True\<rparr>),
               (''c'', \<lparr>user_id = ''uc'', name = ''C'', socketId = ''c'',
                           lastSeen = 1000, isOnline = True\<rparr>)],
      rooms = [(''user_ua'', [''a'']), (''user_ub'', [''b'']), (''user_uc'', [''c'']),
               (''R'', [''a'', ''b'', ''c''])],
      userRooms = [(''ua'', [''user_ua'', ''R'']), (''ub'', [''user_ub'', ''R'']),
                   (''uc'', [''user_uc'', ''R''])],
      timers = [],
      conns = [''a'', ''b'', ''c''],
      groups = [(''user_ua'', ''a''), (''user_ub'', ''b''), (''user_uc'', ''c''),
                (''R'', ''a''), (''R'', ''b''), (''R'', ''c'')]\<rparr>"
  by (simp add: abc_trace_def handler_defs)

text \<open>
  Claim C8 as stated (a redundant join is silent) fails: with \<open>a\<close>, \<open>b\<close> and \<open>c\<close> in
  room \<open>R\<close>, a second \<^verbatim>\<open>join-room\<close> of \<open>a\<close> is delivered to \<open>b\<close> and to \<open>c\<close>.
\<close>

theorem C8_redundant_join_reaches_b_and_c:
  "in_room (run abc_trace initial) ''a'' ''R''
   \<and> in_room (run abc_trace initial) ''b'' ''R''
   \<and> in_room (run abc_trace initial) ''c'' ''R''
   \<and> deliveries (fst (join_room ''a'' ''R'' True (run abc_trace initial)))
                 (snd (join_room ''a'' ''R'' True (run abc_trace initial)))
       = [(''a'', JoinAck True ''R''),
          (''b'', UserJoinedRoom (Some ''ua'') (Some ''A'') ''R''),
          (''c'', UserJoinedRoom (Some ''ua'') (Some ''A'') ''R'')]"
  unfolding abc_state
  by (simp add: in_room_def mem_def deliveries_def room_sockets_def group_members_def
      join_room_def index_add_def Set_add_def socket_join_def Let_def)

theorem C8_redundant_join_notifies_witness:
  "in_room (run abc_trace initial) ''a'' ''R''
   \<and> ''b'' \<in> set (group_members ''R'' (groups (run abc_trace initial)))
   \<and> rooms (fst (join_room ''a'' ''R'' True (run abc_trace initial))) = rooms (run abc_trace initial)
   \<and> (BroadcastToGroup ''R'' ''a'', UserJoinedRoom (Some ''ua'') (Some ''A'') ''R'')
       \<in> set (snd (join_room ''a'' ''R'' True (run abc_trace initial)))
   \<and> (''b'', UserJoinedRoom (Some ''ua'') (Some ''A'') ''R'')
       \<in> set (deliveries (fst (join_room ''a'' ''R'' True (run abc_trace initial)))
                         (snd (join_room ''a'' ''R'' True (run abc_trace initial))))"
proof -
  have a: "in_room (run abc_trace initial) ''a'' ''R''"
    by (simp add: abc_state in_room_def mem_def)
  have b: "''b'' \<in> set (group_members ''R'' (groups (run abc_trace initial)))"
    by (simp add: abc_state group_members_def)
  have n: "''b'' \<noteq> ''a''" by simp
  have u: "Map_get (users (run abc_trace initial)) ''a''
             = Some \<lparr>user_id = ''ua'', name = ''A'', socketId = ''a'',
                     lastSeen = 1000, isOnline = True\<rparr>"
    by (simp add: abc_state)
  from C8_redundant_join_notifies[OF a b n, of True] a b show ?thesis
    by (simp add: u)
qed

subsection \<open>The grace timeout\<close>

lemma users_run_timers:
  "Map_get (users (fst (run_timers cs s))) k =
     (if k \<in> set cs then None else Map_get (users s) k)"
  by (induction cs arbitrary: s)
     (auto simp: timeout_callback_def Let_def split_beta AList.delete_conv')

lemma timers_run_timers: "timers (fst (run_timers cs s)) = timers s"
  by (induction cs arbitrary: s) (simp_all add: timeout_callback_def Let_def split_beta)

lemma users_advance:
  "Map_get (users (fst (advance now s))) k =
     (if \<exists>t. (t, k) \<in> set (timers s) \<and> t \<le> now then None else Map_get (users s) k)"
  by (force simp: advance_def Let_def users_run_timers)

lemma timers_advance:
  "timers (fst (advance now s)) = filter (\<lambda>p. \<not> fst p \<le> now) (timers s)"
  by (simp add: advance_def Let_def timers_run_timers)

lemma item_in_userList: "Map_get (users s) k = Some u \<Longrightarrow> item u \<in> set (userList s)"
  by (force simp: userList_def item_def dest: map_of_SomeD)

lemma run_timers_broadcasts:
  assumes "Map_get (users s) k = Some u" and "k \<notin> set cs"
    and "e \<in> set (snd (run_timers cs s))"
  shows "\<exists>l. e = (Broadcast, UserList l) \<and> item u \<in> set l"
  using assms
proof (induction cs arbitrary: s)
  case Nil
  then show ?case by simp
next
  case (Cons c cs)
  let ?s1 = "s\<lparr>users := Map_delete c (users s)\<rparr>"
  from Cons.prems(1,2) have k: "Map_get (users ?s1) k = Some u"
    by (simp add: AList.delete_conv')
  from Cons.prems(3) have "e = (Broadcast, UserList (userList ?s1))
      \<or> e \<in> set (snd (run_timers cs ?s1))"
    by (auto simp: timeout_callback_def Let_def split_beta broadcastUserList_def)
  then show ?case
  proof
    assume "e = (Broadcast, UserList (userList ?s1))"
    with item_in_userList[OF k] show ?thesis by blast
  next
    assume "e \<in> set (snd (run_timers cs ?s1))"
    with Cons.IH[OF k] Cons.prems(2) show ?thesis by simp
  qed
qed

lemma advance_broadcasts:
  assumes "Map_get (users s) k = Some u" and "k \<notin> snd ` set (timers s)"
    and "e \<in> set (snd (advance now s))"
  shows "\<exists>l. e = (Broadcast, UserList l) \<and> item u \<in> set l"
proof -
  let ?s1 = "s\<lparr>timers := filter (\<lambda>p. \<not> fst p \<le> now) (timers s)\<rparr>"
  let ?cs = "map snd (filter (\<lambda>p. fst p \<le> now) (timers s))"
  have 1: "Map_get (users ?s1) k = Some u" using assms(1) by simp
  have 2: "k \<notin> set ?cs" using assms(2) by auto
  have 3: "e \<in> set (snd (run_timers ?cs ?s1))" using assms(3) by (simp add: advance_def Let_def)
  from run_timers_broadcasts[OF 1 2 3] show ?thesis .
qed

lemma users_disconnect:
  "users (fst (disconnect c now s)) =
     (case Map_get (users s) c of
        None \<Rightarrow> users s
      | Some u \<Rightarrow> Map_set c (u\<lparr>isOnline := False, lastSeen := now\<rparr>) (users s))"
  by (simp add: disconnect_def Let_def split_beta split: option.splits)

lemma timers_disconnect:
  "timers (fst (disconnect c now s)) =
     (case Map_get (users s) c of
        None \<Rightarrow> timers s
      | Some u \<Rightarrow> timers s @ [(now + gracePeriod, c)])"
  by (simp add: disconnect_def Let_def split_beta split: option.splits)

lemma timers_register_user: "timers (fst (register_user c userId nm now uuid s)) = timers s"
  by (simp add: register_user_def Let_def)

lemma snd_register_user:
  "snd (register_user c userId nm now uuid s) =
     [(SendTo c, UserRegistered (or_else userId uuid) (or_else nm (''User_'' @ take 6 c))
                   (''user_'' @ or_else userId uuid)),
      (Broadcast, UserList (userList (fst (register_user c userId nm now uuid s))))]"
  by (simp add: register_user_def Let_def broadcastUserList_def userList_def)

lemma run_timers_emits: "cs \<noteq> [] \<Longrightarrow> snd (run_timers cs s) \<noteq> []"
  by (cases cs) (simp_all add: timeout_callback_def Let_def split_beta broadcastUserList_def)

lemma advance_emits: "(t, c) \<in> set (timers s) \<Longrightarrow> t \<le> now \<Longrightarrow> snd (advance now s) \<noteq> []"
proof -
  assume "(t, c) \<in> set (timers s)" and "t \<le> now"
  then have "(t, c) \<in> set (filter (\<lambda>p. fst p \<le> now) (timers s))" by simp
  then have "map snd (filter (\<lambda>p. fst p \<le> now) (timers s)) \<noteq> []" by force
  then show ?thesis by (simp add: advance_def Let_def run_timers_emits)
qed

text \<open>
  Claim C3.  A connection \<open>c\<close> with a registered user closes at time \<open>T\<close>, and at time
  \<open>T + d\<close>, with \<open>d\<close> smaller than the grace delay, the same logical id registers on
  a new connection \<open>c'\<close>.  The deletion scheduled for \<open>c\<close> is then still pending; when
  it runs, at any time \<open>now\<close> from \<open>T + gracePeriod\<close> on, it removes the entry of \<open>c\<close>
  and leaves the fresh online entry of \<open>c'\<close> in place.  The user is online in the
  list that the registration broadcasts and in each list broadcast when the timeout
  runs, and there is such a broadcast.  A connection id names one connection: the new
  connection is not the closed one and has never been closed itself.
\<close>

theorem C3_grace_window_reconnect:
  assumes "Map_get (users s) c = Some u"
    and "user_id u \<noteq> []"
    and "c' \<noteq> c"
    and "c' \<notin> snd ` set (timers s)"
    and "d < gracePeriod"
    and "T + gracePeriod \<le> now"
  shows "(T + gracePeriod, c) \<in> set (timers (run (reconnect_events c c' (user_id u) nm T d uuid) s))
     \<and> Map_get (users (run (reconnect_events c c' (user_id u) nm T d uuid @ [Advance now]) s)) c
           = None
     \<and> Map_get (users (run (reconnect_events c c' (user_id u) nm T d uuid @ [Advance now]) s)) c'
           = Some \<lparr>user_id = user_id u, name = or_else nm (''User_'' @ take 6 c'),
                    socketId = c', lastSeen = T + d, isOnline = True\<rparr>
     \<and> (Broadcast, UserList (userList (run (reconnect_events c c' (user_id u) nm T d uuid) s)))
           \<in> set (snd (step (Register c' (Some (user_id u)) nm (T + d) uuid)
                              (run [Disconnect c T, Advance (T + d)] s)))
     \<and> (user_id u, or_else nm (''User_'' @ take 6 c'), True, T + d)
           \<in> set (userList (run (reconnect_events c c' (user_id u) nm T d uuid) s))
     \<and> snd (step (Advance now) (run (reconnect_events c c' (user_id u) nm T d uuid) s)) \<noteq> []
     \<and> (\<forall>e \<in> set (snd (step (Advance now)
                                (run (reconnect_events c c' (user_id u) nm T d uuid) s))).
           \<exists>l. e = (Broadcast, UserList l)
               \<and> (user_id u, or_else nm (''User_'' @ take 6 c'), True, T + d) \<in> set l)"
proof -
  define s0 where "s0 = s\<lparr>conns := Set_delete c (conns s),
                           groups := filter (\<lambda>p. snd p \<noteq> c) (groups s)\<rparr>"
  define s1 where "s1 = fst (disconnect c T s0)"
  define s2 where "s2 = fst (advance (T + d) s1)"
  define s3 where "s3 = fst (register_user c' (Some (user_id u)) nm (T + d) uuid s2)"
  define fresh where "fresh = \<lparr>user_id = user_id u, name = or_else nm (''User_'' @ take 6 c'),
                                 socketId = c', lastSeen = T + d, isOnline = True\<rparr>"
  have r2: "run [Disconnect c T, Advance (T + d)] s = s2"
    by (simp add: s2_def s1_def s0_def)
  have r3: "run (reconnect_events c c' (user_id u) nm T d uuid) s = s3"
    by (simp add: reconnect_events_def s3_def s2_def s1_def s0_def)
  have r4: "run (reconnect_events c c' (user_id u) nm T d uuid @ [Advance now]) s
              = fst (advance now s3)"
    by (simp add: run_append r3)
  have u0: "Map_get (users s0) c = Some u" using assms(1) by (simp add: s0_def)
  have t1: "timers s1 = timers s @ [(T + gracePeriod, c)]"
    using u0 by (simp add: s1_def timers_disconnect s0_def)
  have t2: "timers s2 = filter (\<lambda>p. \<not> fst p \<le> T + d) (timers s1)"
    by (simp add: s2_def timers_advance)
  have t3: "timers s3 = timers s2" by (simp add: s3_def timers_register_user)
  have pending: "(T + gracePeriod, c) \<in> set (timers s3)"
    using assms(5) by (simp add: t3 t2 t1)
  have nopend: "c' \<notin> snd ` set (timers s3)"
    using assms(3,4) by (auto simp: t3 t2 t1)
  have u3: "Map_get (users s3) c' = Some fresh"
    using assms(2) by (simp add: s3_def users_register_user AList.update_conv' or_else_def fresh_def)
  have gone: "Map_get (users (fst (advance now s3))) c = None"
    using pending assms(6) by (auto simp: users_advance)
  have kept: "Map_get (users (fst (advance now s3))) c' = Some fresh"
    using nopend u3 by (force simp: users_advance)
  have bc: "(Broadcast, UserList (userList s3))
              \<in> set (snd (step (Register c' (Some (user_id u)) nm (T + d) uuid) s2))"
    by (simp add: snd_register_user s3_def)
  have it: "item fresh = (user_id u, or_else nm (''User_'' @ take 6 c'), True, T + d)"
    by (simp add: item_def fresh_def)
  have shown: "item fresh \<in> set (userList s3)"
    using u3 by (rule item_in_userList)
  have some: "snd (step (Advance now) s3) \<noteq> []"
    using advance_emits[OF pending assms(6)] by simp
  have later: "\<exists>l. e = (Broadcast, UserList l) \<and> item fresh \<in> set l"
    if "e \<in> set (snd (step (Advance now) s3))" for e
    using advance_broadcasts[OF u3 nopend, of e now] that by simp
  note shown' = shown[unfolded it] and later' = later[unfolded it]
    and kept' = kept[unfolded fresh_def]
  show ?thesis
    unfolding r2 r3 r4 using pending gone kept' bc shown' some later'
    by blast
qed

lemma ann_state:
  "run ann_trace initial =
     \<lparr>users = [(''c1'', \<lparr>user_id = ''u1'', name = ''Ann'', socketId = ''c1'',
                            lastSeen = 1000, isOnline = True\<rparr>)],
      rooms = [(''user_u1'', [''c1''])],
      userRooms = [(''u1'', [''user_u1''])],
      timers = [],
      conns = [''c1''],
      groups = [(''user_u1'', ''c1'')]\<rparr>"
  by (simp add: ann_trace_def handler_defs)

theorem C3_grace_window_reconnect_witness:
  "Map_get (users (run ann_trace initial)) ''c1''
     = Some \<lparr>user_id = ''u1'', name = ''Ann'', socketId = ''c1'', lastSeen = 1000, isOnline = True\<rparr>
   \<and> ''c2'' \<notin> snd ` set (timers (run ann_trace initial))
   \<and> (1000 :: int) < gracePeriod \<and> 3000 + gracePeriod \<le> (8000 :: int)
   \<and> (3000 + gracePeriod, ''c1'')
        \<in> set (timers (run (reconnect_events ''c1'' ''c2'' ''u1'' (Some ''Ann'') 3000 1000 ''x2'')
                               (run ann_trace initial)))
   \<and> Map_get (users (run (reconnect_events ''c1'' ''c2'' ''u1'' (Some ''Ann'') 3000 1000 ''x2''
                               @ [Advance 8000]) (run ann_trace initial))) ''c1'' = None
   \<and> Map_get (users (run (reconnect_events ''c1'' ''c2'' ''u1'' (Some ''Ann'') 3000 1000 ''x2''
                               @ [Advance 8000]) (run ann_trace initial))) ''c2''
        = Some \<lparr>user_id = ''u1'', name = ''Ann'', socketId = ''c2'', lastSeen = 4000, isOnline = True\<rparr>"
proof -
  let ?u = "\<lparr>user_id = ''u1'', name = ''Ann'', socketId = ''c1'', lastSeen = 1000, isOnline = True\<rparr>"
  have 1: "Map_get (users (run ann_trace initial)) ''c1'' = Some ?u" by (simp add: ann_state)
  have 2: "user_id ?u \<noteq> []" by simp
  have 3: "''c2'' \<noteq> ''c1''" by simp
  have 4: "''c2'' \<notin> snd ` set (timers (run ann_trace initial))" by (simp add: ann_state)
  have 5: "(1000 :: int) < gracePeriod" by (simp add: gracePeriod_def)
  have 6: "3000 + gracePeriod \<le> (8000 :: int)" by (simp add: gracePeriod_def)
  from C3_grace_window_reconnect[OF 1 2 3 4 5 6, of "Some ''Ann''" "''x2''"] 1 4 5 6
  show ?thesis by (simp add: or_else_def)
qed

subsection \<open>What each event does to the indexes\<close>

lemma mem_fold_room_remove:
  "mem (fold (\<lambda>r. room_remove r c) rs m) r' c' \<longleftrightarrow> mem m r' c' \<and> \<not> (r' \<in> set rs \<and> c' = c)"
  by (induction rs arbitrary: m) (auto simp: mem_room_remove)

lemma mem_update:
  "mem (Map_set k xs m) k' x \<longleftrightarrow> (if k' = k then x \<in> set xs else mem m k' x)"
  by (simp add: mem_def AList.update_conv')

lemma userRooms_register_user:
  "userRooms (fst (register_user c userId nm now uuid s)) =
     index_add (or_else userId uuid) (''user_'' @ or_else userId uuid) (userRooms s)"
  by (simp add: register_user_def Let_def)

lemma conns_register_user: "conns (fst (register_user c userId nm now uuid s)) = conns s"
  by (simp add: register_user_def Let_def)

lemma users_join_room: "users (fst (join_room c r cb s)) = users s"
  by (simp add: join_room_def Let_def split: option.splits)

lemma userRooms_join_room:
  "userRooms (fst (join_room c r cb s)) =
     (case Map_get (users s) c of
        None \<Rightarrow> userRooms s
      | Some u \<Rightarrow> index_add (user_id u) r (userRooms s))"
  by (simp add: join_room_def Let_def split: option.splits)

lemma conns_join_room: "conns (fst (join_room c r cb s)) = conns s"
  by (simp add: join_room_def Let_def split: option.splits)

lemma timers_join_room: "timers (fst (join_room c r cb s)) = timers s"
  by (simp add: join_room_def Let_def split: option.splits)

lemma users_leave_room: "users (fst (leave_room c r cb s)) = users s"
  by (simp add: leave_room_def Let_def split: option.splits)

lemma userRooms_leave_room:
  "userRooms (fst (leave_room c r cb s)) =
     (case Map_get (users s) c of
        None \<Rightarrow> userRooms s
      | Some u \<Rightarrow>
          (case Map_get (userRooms s) (user_id u) of
             None \<Rightarrow> userRooms s
           | Some rs \<Rightarrow> Map_set (user_id u) (Set_delete r rs) (userRooms s)))"
  by (simp add: leave_room_def Let_def split: option.splits)

lemma conns_leave_room: "conns (fst (leave_room c r cb s)) = conns s"
  by (simp add: leave_room_def Let_def split: option.splits)

lemma timers_leave_room: "timers (fst (leave_room c r cb s)) = timers s"
  by (simp add: leave_room_def Let_def split: option.splits)

lemma userRooms_disconnect:
  "userRooms (fst (disconnect c now s)) =
     (case Map_get (users s) c of
        None \<Rightarrow> userRooms s
      | Some u \<Rightarrow>
          (case Map_get (userRooms s) (user_id u) of
             None \<Rightarrow> userRooms s
           | Some rs \<Rightarrow> Map_delete (user_id u) (userRooms s)))"
  by (simp add: disconnect_def Let_def split_beta split: option.splits)

lemma conns_disconnect: "conns (fst (disconnect c now s)) = conns s"
  by (simp add: disconnect_def Let_def split_beta split: option.splits)

lemma userRooms_run_timers: "userRooms (fst (run_timers cs s)) = userRooms s"
  by (induction cs arbitrary: s) (simp_all add: timeout_callback_def Let_def split_beta)

lemma conns_run_timers: "conns (fst (run_timers cs s)) = conns s"
  by (induction cs arbitrary: s) (simp_all add: timeout_callback_def Let_def split_beta)

lemma userRooms_advance: "userRooms (fst (advance now s)) = userRooms s"
  by (simp add: advance_def Let_def userRooms_run_timers)

lemma conns_advance: "conns (fst (advance now s)) = conns s"
  by (simp add: advance_def Let_def conns_run_timers)

text \<open>The same, read through \<open>in_room\<close> and \<open>has_room\<close>.\<close>

lemma in_room_register:
  "in_room (fst (register_user c userId nm now uuid s)) c' r \<longleftrightarrow>
     (r = ''user_'' @ or_else userId uuid \<and> c' = c) \<or> in_room s c' r"
  by (simp add: in_room_def rooms_register_user mem_index_add)

lemma has_room_register:
  "has_room (fst (register_user c userId nm now uuid s)) uid r \<longleftrightarrow>
     (uid = or_else userId uuid \<and> r = ''user_'' @ or_else userId uuid) \<or> has_room s uid r"
  by (simp add: has_room_def userRooms_register_user mem_index_add)

lemma in_room_join:
  "in_room (fst (join_room c r cb s)) c' r' \<longleftrightarrow> (r' = r \<and> c' = c) \<or> in_room s c' r'"
  by (simp add: in_room_def rooms_join_room mem_index_add)

lemma has_room_join:
  "Map_get (users s) c = Some u \<Longrightarrow>
   has_room (fst (join_room c r cb s)) uid r' \<longleftrightarrow> (uid = user_id u \<and> r' = r) \<or> has_room s uid r'"
  by (simp add: has_room_def userRooms_join_room mem_index_add)

lemma in_room_leave:
  "in_room (fst (leave_room c r cb s)) c' r' \<longleftrightarrow> in_room s c' r' \<and> \<not> (r' = r \<and> c' = c)"
  by (simp add: in_room_def rooms_leave_room mem_room_remove)

lemma has_room_leave:
  assumes "Map_get (users s) c = Some u"
  shows "has_room (fst (leave_room c r cb s)) uid r' \<longleftrightarrow>
           has_room s uid r' \<and> \<not> (uid = user_id u \<and> r' = r)"
proof (cases "Map_get (userRooms s) (user_id u)")
  case None
  then have "\<not> mem (userRooms s) (user_id u) r'" by (simp add: mem_def)
  with None assms show ?thesis by (auto simp: has_room_def userRooms_leave_room)
next
  case (Some rs)
  then have "mem (userRooms s) (user_id u) r' \<longleftrightarrow> r' \<in> set rs" by (simp add: mem_def)
  with Some assms show ?thesis
    by (auto simp: has_room_def userRooms_leave_room mem_update Set_delete_def)
qed

lemma in_room_disconnect:
  assumes "Map_get (users s) c = Some u"
  shows "in_room (fst (disconnect c now s)) c' r \<longleftrightarrow>
           in_room s c' r \<and> \<not> (c' = c \<and> has_room s (user_id u) r)"
proof (cases "Map_get (userRooms s) (user_id u)")
  case None
  then have "\<not> mem (userRooms s) (user_id u) r" by (simp add: mem_def)
  with None assms show ?thesis by (simp add: in_room_def has_room_def rooms_disconnect)
next
  case (Some rs)
  then have "mem (userRooms s) (user_id u) r \<longleftrightarrow> r \<in> set rs" by (simp add: mem_def)
  with Some assms show ?thesis
    by (auto simp: in_room_def has_room_def rooms_disconnect mem_fold_room_remove)
qed

lemma has_room_disconnect:
  assumes "Map_get (users s) c = Some u"
  shows "has_room (fst (disconnect c now s)) uid r \<longleftrightarrow> has_room s uid r \<and> uid \<noteq> user_id u"
proof (cases "Map_get (userRooms s) (user_id u)")
  case None
  then have "\<not> mem (userRooms s) (user_id u) r" by (simp add: mem_def)
  with None assms show ?thesis by (auto simp: has_room_def userRooms_disconnect)
next
  case (Some rs)
  with assms show ?thesis
    by (auto simp: has_room_def userRooms_disconnect mem_delete)
qed

lemma disconnect_unregistered: "Map_get (users s) c = None \<Longrightarrow> fst (disconnect c now s) = s"
  by (simp add: disconnect_def)

subsection \<open>The events keep the state consistent\<close>

lemma consistentI:
  assumes "\<And>k. live s k \<Longrightarrow> k \<in> set (conns s)"
    and "\<And>k u. Map_get (users s) k = Some u \<Longrightarrow> k \<in> set (conns s) \<Longrightarrow> isOnline u"
    and "\<And>k. k \<in> set (conns s) \<Longrightarrow> k \<notin> snd ` set (timers s)"
    and "\<And>k r. in_room s k r \<Longrightarrow> live s k"
    and "\<And>i r. has_room s i r \<Longrightarrow> \<exists>k u. Map_get (users s) k = Some u \<and> isOnline u \<and> user_id u = i"
    and "\<And>k k' u u'. Map_get (users s) k = Some u \<Longrightarrow> Map_get (users s) k' = Some u' \<Longrightarrow>
           isOnline u \<Longrightarrow> isOnline u' \<Longrightarrow> user_id u = user_id u' \<Longrightarrow> k = k'"
    and "\<And>k u r. Map_get (users s) k = Some u \<Longrightarrow> isOnline u \<Longrightarrow>
           in_room s k r \<longleftrightarrow> has_room s (user_id u) r"
  shows "consistent s"
proof -
  have "live_connected s" unfolding live_connected_def using assms(1) by blast
  moreover have "connected_live s" unfolding connected_live_def using assms(2) by blast
  moreover have "open_unscheduled s" unfolding open_unscheduled_def using assms(3) by simp
  moreover have "members_live s" unfolding members_live_def using assms(4) by blast
  moreover have "room_sets_owned s" unfolding room_sets_owned_def using assms(5) by blast
  moreover have "live_ids_unique s" unfolding live_ids_unique_def using assms(6) by blast
  moreover have "symmetric_live s" unfolding symmetric_live_def using assms(7) by blast
  ultimately show ?thesis by (simp add: consistent_def)
qed

lemma consistent_conns: "consistent s \<Longrightarrow> live s k \<Longrightarrow> k \<in> set (conns s)"
  by (simp add: consistent_def live_connected_def)

lemma consistent_online:
  "consistent s \<Longrightarrow> Map_get (users s) k = Some u \<Longrightarrow> k \<in> set (conns s) \<Longrightarrow> isOnline u"
proof -
  assume "consistent s" and a: "Map_get (users s) k = Some u" "k \<in> set (conns s)"
  then have "connected_live s" by (simp add: consistent_def)
  with a show ?thesis unfolding connected_live_def by blast
qed

lemma consistent_timers: "consistent s \<Longrightarrow> k \<in> set (conns s) \<Longrightarrow> k \<notin> snd ` set (timers s)"
  by (simp add: consistent_def open_unscheduled_def)

lemma consistent_in_room: "consistent s \<Longrightarrow> in_room s k r \<Longrightarrow> live s k"
proof -
  assume "consistent s" and a: "in_room s k r"
  then have "members_live s" by (simp add: consistent_def)
  with a show ?thesis unfolding members_live_def by blast
qed

lemma consistent_has_room:
  "consistent s \<Longrightarrow> has_room s i r \<Longrightarrow>
     \<exists>k u. Map_get (users s) k = Some u \<and> isOnline u \<and> user_id u = i"
proof -
  assume "consistent s" and a: "has_room s i r"
  then have "room_sets_owned s" by (simp add: consistent_def)
  with a show ?thesis unfolding room_sets_owned_def by blast
qed

lemma consistent_ids:
  "consistent s \<Longrightarrow> Map_get (users s) k = Some u \<Longrightarrow> Map_get (users s) k' = Some u' \<Longrightarrow>
     isOnline u \<Longrightarrow> isOnline u' \<Longrightarrow> user_id u = user_id u' \<Longrightarrow> k = k'"
proof -
  assume "consistent s" and a: "Map_get (users s) k = Some u" "Map_get (users s) k' = Some u'"
    "isOnline u" "isOnline u'" "user_id u = user_id u'"
  then have "live_ids_unique s" by (simp add: consistent_def)
  with a show ?thesis unfolding live_ids_unique_def by blast
qed

lemma consistent_sym:
  "consistent s \<Longrightarrow> Map_get (users s) k = Some u \<Longrightarrow> isOnline u \<Longrightarrow>
     in_room s k r \<longleftrightarrow> has_room s (user_id u) r"
proof -
  assume "consistent s" and a: "Map_get (users s) k = Some u" "isOnline u"
  then have "symmetric_live s" by (simp add: consistent_def)
  with a show ?thesis unfolding symmetric_live_def by blast
qed

lemma live_iff: "live s k \<longleftrightarrow> (\<exists>u. Map_get (users s) k = Some u \<and> isOnline u)"
  by (simp add: live_def split: option.splits)

lemma live_entries_Nil:
  "live_entries s uid = [] \<Longrightarrow> Map_get (users s) k = Some u \<Longrightarrow> isOnline u \<Longrightarrow> user_id u \<noteq> uid"
proof
  assume e: "live_entries s uid = []" and k: "Map_get (users s) k = Some u"
    and o: "isOnline u" and i: "user_id u = uid"
  from k have "(k, u) \<in> set (users s)" by (rule map_of_SomeD)
  then have "u \<in> set (map snd (users s))" by force
  with o i have "u \<in> set (live_entries s uid)" by (simp add: live_entries_def)
  with e show False by simp
qed

lemma consistent_register:
  assumes inv: "consistent s" and v: "valid (Register c userId nm now uuid) s"
  shows "consistent (fst (step (Register c userId nm now uuid) s))"
proof -
  define uid where "uid = or_else userId uuid"
  define usr where "usr = \<lparr>user_id = uid, name = or_else nm (''User_'' @ take 6 c),
                             socketId = c, lastSeen = now, isOnline = True\<rparr>"
  define s' where "s' = fst (register_user c userId nm now uuid s)"
  have U: "\<And>k. Map_get (users s') k = (if k = c then Some usr else Map_get (users s) k)"
    by (simp add: s'_def users_register_user AList.update_conv' usr_def uid_def)
  have L: "\<And>k. live s' k \<longleftrightarrow> k = c \<or> live s k"
    by (simp add: live_def U usr_def)
  have R: "\<And>k r. in_room s' k r \<longleftrightarrow> (r = ''user_'' @ uid \<and> k = c) \<or> in_room s k r"
    by (simp add: s'_def in_room_register uid_def)
  have H: "\<And>i r. has_room s' i r \<longleftrightarrow> (i = uid \<and> r = ''user_'' @ uid) \<or> has_room s i r"
    by (simp add: s'_def has_room_register uid_def)
  have C: "conns s' = conns s" and T: "timers s' = timers s"
    by (simp_all add: s'_def conns_register_user timers_register_user)
  have iu: "user_id usr = uid" "isOnline usr" by (simp_all add: usr_def)
  from v have vc: "c \<in> set (conns s)" by simp
  have vl: "user_id u \<noteq> uid" if "Map_get (users s) k = Some u" "isOnline u" "k \<noteq> c" for k u
  proof (cases "Map_get (users s) c")
    case None
    with v have "live_entries s uid = []" by (simp add: uid_def)
    then show ?thesis using that(1,2) by (rule live_entries_Nil)
  next
    case (Some u0)
    with v have "user_id u0 = uid" by (simp add: uid_def)
    moreover have "isOnline u0" using inv Some vc by (rule consistent_online)
    ultimately show ?thesis using consistent_ids[OF inv that(1) Some that(2)] that(3) by auto
  qed
  have symc: "in_room s c r \<longleftrightarrow> has_room s uid r" for r
  proof (cases "Map_get (users s) c")
    case None
    then have "\<not> live s c" by (simp add: live_def)
    then have 1: "\<not> in_room s c r" using consistent_in_room[OF inv, of c r] by blast
    have 2: "\<not> has_room s uid r"
    proof
      assume "has_room s uid r"
      from consistent_has_room[OF inv this]
      obtain k u where ku: "Map_get (users s) k = Some u" "isOnline u" "user_id u = uid"
        by blast
      with None have "k \<noteq> c" by auto
      with ku vl[of k u] show False by simp
    qed
    from 1 2 show ?thesis by simp
  next
    case (Some u0)
    with v have "user_id u0 = uid" by (simp add: uid_def)
    moreover have "isOnline u0" using inv Some vc by (rule consistent_online)
    ultimately show ?thesis using consistent_sym[OF inv Some, of r] by simp
  qed
  have "consistent s'"
  proof (rule consistentI)
    fix k assume "live s' k"
    then show "k \<in> set (conns s')" using consistent_conns[OF inv, of k] vc by (auto simp: L C)
  next
    fix k u assume "Map_get (users s') k = Some u" "k \<in> set (conns s')"
    then show "isOnline u" using consistent_online[OF inv, of k u] iu
      by (auto simp: U C split: if_splits)
  next
    fix k assume "k \<in> set (conns s')"
    then show "k \<notin> snd ` set (timers s')" using consistent_timers[OF inv, of k] by (simp add: C T)
  next
    fix k r assume "in_room s' k r"
    then show "live s' k" using consistent_in_room[OF inv, of k r] by (auto simp: R L)
  next
    fix i r assume "has_room s' i r"
    then consider "i = uid" | "i \<noteq> uid" "has_room s i r" by (auto simp: H)
    then show "\<exists>k u. Map_get (users s') k = Some u \<and> isOnline u \<and> user_id u = i"
    proof cases
      case 1
      with iu U[of c] show ?thesis by auto
    next
      case 2
      from consistent_has_room[OF inv 2(2)]
      obtain k u where ku: "Map_get (users s) k = Some u" "isOnline u" "user_id u = i"
        by blast
      have "k \<noteq> c"
      proof
        assume "k = c"
        with ku(1) v have "user_id u = uid" by (simp add: uid_def)
        with ku(3) 2(1) show False by simp
      qed
      with ku U[of k] show ?thesis by auto
    qed
  next
    fix k k' u u'
    assume a: "Map_get (users s') k = Some u" "Map_get (users s') k' = Some u'"
      "isOnline u" "isOnline u'" "user_id u = user_id u'"
    show "k = k'"
    proof (cases "k = c"; cases "k' = c")
      assume "k \<noteq> c" "k' \<noteq> c"
      with a show ?thesis using consistent_ids[OF inv, of k u k' u'] by (simp add: U)
    next
      assume "k = c" "k' \<noteq> c"
      with a vl[of k' u'] iu show ?thesis by (simp add: U)
    next
      assume "k \<noteq> c" "k' = c"
      with a vl[of k u] iu show ?thesis by (simp add: U)
    qed simp
  next
    fix k u r
    assume a: "Map_get (users s') k = Some u" "isOnline u"
    show "in_room s' k r \<longleftrightarrow> has_room s' (user_id u) r"
    proof (cases "k = c")
      case True
      with a have "u = usr" by (simp add: U)
      with True iu symc[of r] show ?thesis by (simp add: R H)
    next
      case False
      with a have old: "Map_get (users s) k = Some u" "isOnline u" by (simp_all add: U)
      from old False have "user_id u \<noteq> uid" by (rule vl)
      moreover from old have "in_room s k r \<longleftrightarrow> has_room s (user_id u) r"
        by (rule consistent_sym[OF inv])
      ultimately show ?thesis using False by (simp add: R H)
    qed
  qed
  then show ?thesis by (simp add: s'_def)
qed

lemma consistent_join:
  assumes inv: "consistent s" and v: "valid (JoinRoom c r cb) s"
  shows "consistent (fst (step (JoinRoom c r cb) s))"
proof -
  define s' where "s' = fst (join_room c r cb s)"
  from v obtain u0 where vc: "c \<in> set (conns s)" and u0: "Map_get (users s) c = Some u0"
    by auto
  have on: "isOnline u0" using inv u0 vc by (rule consistent_online)
  have U: "users s' = users s" by (simp add: s'_def users_join_room)
  have L: "\<And>k. live s' k \<longleftrightarrow> live s k" by (simp add: live_def U)
  have R: "\<And>k r'. in_room s' k r' \<longleftrightarrow> (r' = r \<and> k = c) \<or> in_room s k r'"
    by (simp add: s'_def in_room_join)
  have H: "\<And>i r'. has_room s' i r' \<longleftrightarrow> (i = user_id u0 \<and> r' = r) \<or> has_room s i r'"
    by (simp add: s'_def has_room_join[OF u0])
  have C: "conns s' = conns s" and T: "timers s' = timers s"
    by (simp_all add: s'_def conns_join_room timers_join_room)
  have lc: "live s c" using u0 on by (simp add: live_def)
  have other: "user_id u \<noteq> user_id u0"
    if "Map_get (users s) k = Some u" "isOnline u" "k \<noteq> c" for k u
    using consistent_ids[OF inv that(1) u0 that(2) on] that(3) by blast
  have "consistent s'"
  proof (rule consistentI)
    fix k assume "live s' k"
    then show "k \<in> set (conns s')" using consistent_conns[OF inv, of k] by (simp add: L C)
  next
    fix k u assume "Map_get (users s') k = Some u" "k \<in> set (conns s')"
    then show "isOnline u" using consistent_online[OF inv, of k u] by (simp add: U C)
  next
    fix k assume "k \<in> set (conns s')"
    then show "k \<notin> snd ` set (timers s')" using consistent_timers[OF inv, of k] by (simp add: C T)
  next
    fix k r' assume "in_room s' k r'"
    then show "live s' k" using consistent_in_room[OF inv, of k r'] lc by (auto simp: R L)
  next
    fix i r' assume "has_room s' i r'"
    then consider "i = user_id u0" | "has_room s i r'" by (auto simp: H)
    then show "\<exists>k u. Map_get (users s') k = Some u \<and> isOnline u \<and> user_id u = i"
    proof cases
      case 1
      with u0 on show ?thesis unfolding U by blast
    next
      case 2
      then show ?thesis unfolding U by (rule consistent_has_room[OF inv])
    qed
  next
    fix k k' u u'
    assume "Map_get (users s') k = Some u" "Map_get (users s') k' = Some u'"
      "isOnline u" "isOnline u'" "user_id u = user_id u'"
    then show "k = k'" unfolding U by (rule consistent_ids[OF inv])
  next
    fix k u r'
    assume a: "Map_get (users s') k = Some u" "isOnline u"
    then have old: "in_room s k r' \<longleftrightarrow> has_room s (user_id u) r'"
      unfolding U by (rule consistent_sym[OF inv])
    show "in_room s' k r' \<longleftrightarrow> has_room s' (user_id u) r'"
    proof (cases "k = c")
      case True
      with a u0 have "u = u0" by (simp add: U)
      with True old show ?thesis by (simp add: R H)
    next
      case False
      with a other[of k u] have "user_id u \<noteq> user_id u0" by (simp add: U)
      with False old show ?thesis by (simp add: R H)
    qed
  qed
  then show ?thesis by (simp add: s'_def)
qed

lemma consistent_leave:
  assumes inv: "consistent s" and v: "valid (LeaveRoom c r cb) s"
  shows "consistent (fst (step (LeaveRoom c r cb) s))"
proof -
  define s' where "s' = fst (leave_room c r cb s)"
  from v obtain u0 where vc: "c \<in> set (conns s)" and u0: "Map_get (users s) c = Some u0"
    by auto
  have on: "isOnline u0" using inv u0 vc by (rule consistent_online)
  have U: "users s' = users s" by (simp add: s'_def users_leave_room)
  have L: "\<And>k. live s' k \<longleftrightarrow> live s k" by (simp add: live_def U)
  have R: "\<And>k r'. in_room s' k r' \<longleftrightarrow> in_room s k r' \<and> \<not> (r' = r \<and> k = c)"
    by (simp add: s'_def in_room_leave)
  have H: "\<And>i r'. has_room s' i r' \<longleftrightarrow> has_room s i r' \<and> \<not> (i = user_id u0 \<and> r' = r)"
    by (simp add: s'_def has_room_leave[OF u0])
  have C: "conns s' = conns s" and T: "timers s' = timers s"
    by (simp_all add: s'_def conns_leave_room timers_leave_room)
  have other: "user_id u \<noteq> user_id u0"
    if "Map_get (users s) k = Some u" "isOnline u" "k \<noteq> c" for k u
    using consistent_ids[OF inv that(1) u0 that(2) on] that(3) by blast
  have "consistent s'"
  proof (rule consistentI)
    fix k assume "live s' k"
    then show "k \<in> set (conns s')" using consistent_conns[OF inv, of k] by (simp add: L C)
  next
    fix k u assume "Map_get (users s') k = Some u" "k \<in> set (conns s')"
    then show "isOnline u" using consistent_online[OF inv, of k u] by (simp add: U C)
  next
    fix k assume "k \<in> set (conns s')"
    then show "k \<notin> snd ` set (timers s')" using consistent_timers[OF inv, of k] by (simp add: C T)
  next
    fix k r' assume "in_room s' k r'"
    then show "live s' k" using consistent_in_room[OF inv, of k r'] by (simp add: R L)
  next
    fix i r' assume "has_room s' i r'"
    then have "has_room s i r'" by (simp add: H)
    then show "\<exists>k u. Map_get (users s') k = Some u \<and> isOnline u \<and> user_id u = i"
      unfolding U by (rule consistent_has_room[OF inv])
  next
    fix k k' u u'
    assume "Map_get (users s') k = Some u" "Map_get (users s') k' = Some u'"
      "isOnline u" "isOnline u'" "user_id u = user_id u'"
    then show "k = k'" unfolding U by (rule consistent_ids[OF inv])
  next
    fix k u r'
    assume a: "Map_get (users s') k = Some u" "isOnline u"
    then have old: "in_room s k r' \<longleftrightarrow> has_room s (user_id u) r'"
      unfolding U by (rule consistent_sym[OF inv])
    show "in_room s' k r' \<longleftrightarrow> has_room s' (user_id u) r'"
    proof (cases "k = c")
      case True
      with a u0 have "u = u0" by (simp add: U)
      with True old show ?thesis by (simp add: R H)
    next
      case False
      with a other[of k u] have "user_id u \<noteq> user_id u0" by (simp add: U)
      with False old show ?thesis by (simp add: R H)
    qed
  qed
  then show ?thesis by (simp add: s'_def)
qed

lemma consistent_disconnect:
  assumes inv: "consistent s" and v: "valid (Disconnect c now) s"
  shows "consistent (fst (step (Disconnect c now) s))"
proof -
  define s0 where "s0 = s\<lparr>conns := Set_delete c (conns s),
                           groups := filter (\<lambda>p. snd p \<noteq> c) (groups s)\<rparr>"
  define s' where "s' = fst (disconnect c now s0)"
  have U0: "users s0 = users s" and T0: "timers s0 = timers s"
    and C0: "set (conns s0) = set (conns s) - {c}"
    by (simp_all add: s0_def Set_delete_def)
  have R0: "\<And>k r. in_room s0 k r \<longleftrightarrow> in_room s k r"
    and H0: "\<And>i r. has_room s0 i r \<longleftrightarrow> has_room s i r"
    by (simp_all add: s0_def in_room_def has_room_def)
  have C: "set (conns s') = set (conns s) - {c}"
    by (simp add: s'_def conns_disconnect C0)
  from v have vc: "c \<in> set (conns s)" by simp
  have "consistent s'"
  proof (cases "Map_get (users s) c")
    case None
    then have eq: "s' = s0" by (simp add: s'_def disconnect_unregistered U0)
    have nl: "\<not> live s c" using None by (simp add: live_def)
    have U: "users s' = users s" and T: "timers s' = timers s" by (simp_all add: eq U0 T0)
    have L: "\<And>k. live s' k \<longleftrightarrow> live s k" by (simp add: live_def U)
    have R: "\<And>k r. in_room s' k r \<longleftrightarrow> in_room s k r" by (simp add: eq R0)
    have H: "\<And>i r. has_room s' i r \<longleftrightarrow> has_room s i r" by (simp add: eq H0)
    show ?thesis
    proof (rule consistentI)
      fix k assume "live s' k"
      then show "k \<in> set (conns s')" using consistent_conns[OF inv, of k] nl by (auto simp: L C)
    next
      fix k u assume "Map_get (users s') k = Some u" "k \<in> set (conns s')"
      then show "isOnline u" using consistent_online[OF inv, of k u] by (simp add: U C)
    next
      fix k assume "k \<in> set (conns s')"
      then show "k \<notin> snd ` set (timers s')"
        using consistent_timers[OF inv, of k] by (simp add: C T)
    next
      fix k r assume "in_room s' k r"
      then show "live s' k" using consistent_in_room[OF inv, of k r] by (simp add: L R)
    next
      fix i r assume "has_room s' i r"
      then have "has_room s i r" by (simp add: H)
      then show "\<exists>k u. Map_get (users s') k = Some u \<and> isOnline u \<and> user_id u = i"
        unfolding U by (rule consistent_has_room[OF inv])
    next
      fix k k' u u'
      assume "Map_get (users s') k = Some u" "Map_get (users s') k' = Some u'"
        "isOnline u" "isOnline u'" "user_id u = user_id u'"
      then show "k = k'" unfolding U by (rule consistent_ids[OF inv])
    next
      fix k u r
      assume "Map_get (users s') k = Some u" "isOnline u"
      then have "in_room s k r \<longleftrightarrow> has_room s (user_id u) r"
        unfolding U by (rule consistent_sym[OF inv])
      then show "in_room s' k r \<longleftrightarrow> has_room s' (user_id u) r" by (simp add: R H)
    qed
  next
    case (Some u0)
    then have u0: "Map_get (users s0) c = Some u0" by (simp add: U0)
    have on: "isOnline u0" using inv Some vc by (rule consistent_online)
    have U: "\<And>k. Map_get (users s') k =
               (if k = c then Some (u0\<lparr>isOnline := False, lastSeen := now\<rparr>)
                else Map_get (users s) k)"
      using u0 by (simp add: s'_def users_disconnect AList.update_conv' U0)
    have L: "\<And>k. live s' k \<longleftrightarrow> live s k \<and> k \<noteq> c"
      by (simp add: live_def U)
    have symc: "\<And>r. in_room s c r \<longleftrightarrow> has_room s (user_id u0) r"
      using Some on by (rule consistent_sym[OF inv])
    have R: "\<And>k r. in_room s' k r \<longleftrightarrow> in_room s k r \<and> k \<noteq> c"
      using symc by (auto simp: s'_def in_room_disconnect[OF u0] R0 H0)
    have H: "\<And>i r. has_room s' i r \<longleftrightarrow> has_room s i r \<and> i \<noteq> user_id u0"
      by (simp add: s'_def has_room_disconnect[OF u0] H0)
    have T: "timers s' = timers s @ [(now + gracePeriod, c)]"
      using u0 by (simp add: s'_def timers_disconnect T0)
    have other: "user_id u \<noteq> user_id u0"
      if "Map_get (users s) k = Some u" "isOnline u" "k \<noteq> c" for k u
      using consistent_ids[OF inv that(1) Some that(2) on] that(3) by blast
    show ?thesis
    proof (rule consistentI)
      fix k assume "live s' k"
      then show "k \<in> set (conns s')" using consistent_conns[OF inv, of k] by (simp add: L C)
    next
      fix k u assume "Map_get (users s') k = Some u" "k \<in> set (conns s')"
      then show "isOnline u" using consistent_online[OF inv, of k u] by (simp add: U C)
    next
      fix k assume "k \<in> set (conns s')"
      then show "k \<notin> snd ` set (timers s')"
        using consistent_timers[OF inv, of k] by (auto simp: C T)
    next
      fix k r assume "in_room s' k r"
      then show "live s' k" using consistent_in_room[OF inv, of k r] by (simp add: L R)
    next
      fix i r assume "has_room s' i r"
      then have h: "has_room s i r" and ne: "i \<noteq> user_id u0" by (simp_all add: H)
      from consistent_has_room[OF inv h]
      obtain k u where ku: "Map_get (users s) k = Some u" "isOnline u" "user_id u = i"
        by blast
      with ne Some have "k \<noteq> c" by auto
      with ku show "\<exists>k u. Map_get (users s') k = Some u \<and> isOnline u \<and> user_id u = i"
        using U[of k] by auto
    next
      fix k k' u u'
      assume a: "Map_get (users s') k = Some u" "Map_get (users s') k' = Some u'"
        "isOnline u" "isOnline u'" "user_id u = user_id u'"
      then have "k \<noteq> c" "k' \<noteq> c" by (auto simp: U split: if_splits)
      with a show "k = k'" using consistent_ids[OF inv, of k u k' u'] by (simp add: U)
    next
      fix k u r
      assume a: "Map_get (users s') k = Some u" "isOnline u"
      then have kc: "k \<noteq> c" by (auto simp: U split: if_splits)
      with a have old: "Map_get (users s) k = Some u" by (simp add: U)
      from old a(2) kc have "user_id u \<noteq> user_id u0" by (rule other)
      moreover from old a(2) have "in_room s k r \<longleftrightarrow> has_room s (user_id u) r"
        by (rule consistent_sym[OF inv])
      ultimately show "in_room s' k r \<longleftrightarrow> has_room s' (user_id u) r"
        using kc by (simp add: R H)
    qed
  qed
  then show ?thesis by (simp add: s'_def s0_def)
qed

lemma in_room_advance: "in_room (fst (advance now s)) k r \<longleftrightarrow> in_room s k r"
  by (simp add: in_room_def rooms_advance)

lemma has_room_advance: "has_room (fst (advance now s)) i r \<longleftrightarrow> has_room s i r"
  by (simp add: has_room_def userRooms_advance)

lemma consistent_advance:
  assumes inv: "consistent s"
  shows "consistent (fst (step (Advance now) s))"
proof -
  define s' where "s' = fst (advance now s)"
  define due where "due k \<longleftrightarrow> (\<exists>t. (t, k) \<in> set (timers s) \<and> t \<le> now)" for k
  have U: "\<And>k. Map_get (users s') k = (if due k then None else Map_get (users s) k)"
    by (simp add: s'_def users_advance due_def)
  have C: "conns s' = conns s" by (simp add: s'_def conns_advance)
  have T: "set (timers s') \<subseteq> set (timers s)" by (auto simp: s'_def timers_advance)
  have R: "\<And>k r. in_room s' k r \<longleftrightarrow> in_room s k r" by (simp add: s'_def in_room_advance)
  have H: "\<And>i r. has_room s' i r \<longleftrightarrow> has_room s i r" by (simp add: s'_def has_room_advance)
  have nd: "\<not> due k" if "k \<in> set (conns s)" for k
    using consistent_timers[OF inv that] by (force simp: due_def)
  have ndl: "\<not> due k" if "live s k" for k
    using consistent_conns[OF inv that] by (rule nd)
  have keep: "Map_get (users s') k = Some u" if "Map_get (users s) k = Some u" "isOnline u" for k u
  proof -
    from that have "live s k" by (simp add: live_def)
    then have "\<not> due k" by (rule ndl)
    with that show ?thesis by (simp add: U)
  qed
  have old: "Map_get (users s) k = Some u" if "Map_get (users s') k = Some u" for k u
    using that by (simp add: U split: if_splits)
  have "consistent s'"
  proof (rule consistentI)
    fix k assume "live s' k"
    then have "live s k" by (auto simp: live_iff dest: old)
    then show "k \<in> set (conns s')" using consistent_conns[OF inv, of k] by (simp add: C)
  next
    fix k u assume "Map_get (users s') k = Some u" "k \<in> set (conns s')"
    then show "isOnline u" using consistent_online[OF inv, of k u] by (auto simp: C dest: old)
  next
    fix k assume "k \<in> set (conns s')"
    then show "k \<notin> snd ` set (timers s')"
      using consistent_timers[OF inv, of k] T by (auto simp: C)
  next
    fix k r assume "in_room s' k r"
    then have "live s k" using consistent_in_room[OF inv, of k r] by (simp add: R)
    then show "live s' k" by (auto simp: live_iff dest: keep)
  next
    fix i r assume "has_room s' i r"
    then have "has_room s i r" by (simp add: H)
    from consistent_has_room[OF inv this]
    obtain k u where ku: "Map_get (users s) k = Some u" "isOnline u" "user_id u = i" by blast
    with keep[OF ku(1,2)]
    show "\<exists>k u. Map_get (users s') k = Some u \<and> isOnline u \<and> user_id u = i" by blast
  next
    fix k k' u u'
    assume a: "Map_get (users s') k = Some u" "Map_get (users s') k' = Some u'"
      "isOnline u" "isOnline u'" "user_id u = user_id u'"
    from old[OF a(1)] old[OF a(2)] a(3,4,5) show "k = k'" by (rule consistent_ids[OF inv])
  next
    fix k u r
    assume a: "Map_get (users s') k = Some u" "isOnline u"
    from old[OF a(1)] a(2) have "in_room s k r \<longleftrightarrow> has_room s (user_id u) r"
      by (rule consistent_sym[OF inv])
    then show "in_room s' k r \<longleftrightarrow> has_room s' (user_id u) r" by (simp add: R H)
  qed
  then show ?thesis by (simp add: s'_def)
qed

lemma consistent_connect:
  assumes inv: "consistent s" and v: "valid (Connect c) s"
  shows "consistent (fst (step (Connect c) s))"
proof -
  define s' where "s' = s\<lparr>conns := Set_add c (conns s)\<rparr>"
  have U: "users s' = users s" and T: "timers s' = timers s"
    and C: "set (conns s') = insert c (set (conns s))"
    by (auto simp: s'_def Set_add_def)
  have R: "\<And>k r. in_room s' k r \<longleftrightarrow> in_room s k r"
    and H: "\<And>i r. has_room s' i r \<longleftrightarrow> has_room s i r"
    and L: "\<And>k. live s' k \<longleftrightarrow> live s k"
    by (simp_all add: s'_def in_room_def has_room_def live_def)
  from v have vu: "Map_get (users s) c = None" and vt: "c \<notin> snd ` set (timers s)"
    by simp_all
  have "consistent s'"
  proof (rule consistentI)
    fix k assume "live s' k"
    then show "k \<in> set (conns s')" using consistent_conns[OF inv, of k] by (simp add: L C)
  next
    fix k u assume "Map_get (users s') k = Some u" "k \<in> set (conns s')"
    then show "isOnline u" using consistent_online[OF inv, of k u] vu by (auto simp: U C)
  next
    fix k assume "k \<in> set (conns s')"
    then show "k \<notin> snd ` set (timers s')"
      using consistent_timers[OF inv, of k] vt by (auto simp: C T)
  next
    fix k r assume "in_room s' k r"
    then show "live s' k" using consistent_in_room[OF inv, of k r] by (simp add: L R)
  next
    fix i r assume "has_room s' i r"
    then have "has_room s i r" by (simp add: H)
    then show "\<exists>k u. Map_get (users s') k = Some u \<and> isOnline u \<and> user_id u = i"
      unfolding U by (rule consistent_has_room[OF inv])
  next
    fix k k' u u'
    assume "Map_get (users s') k = Some u" "Map_get (users s') k' = Some u'"
      "isOnline u" "isOnline u'" "user_id u = user_id u'"
    then show "k = k'" unfolding U by (rule consistent_ids[OF inv])
  next
    fix k u r
    assume "Map_get (users s') k = Some u" "isOnline u"
    then have "in_room s k r \<longleftrightarrow> has_room s (user_id u) r"
      unfolding U by (rule consistent_sym[OF inv])
    then show "in_room s' k r \<longleftrightarrow> has_room s' (user_id u) r" by (simp add: R H)
  qed
  then show ?thesis by (simp add: s'_def connection_def)
qed

lemma consistent_step:
  assumes "consistent s" and "valid e s"
  shows "consistent (fst (step e s))"
proof (cases e)
  case (Connect c)
  with assms show ?thesis using consistent_connect by blast
next
  case (Register c userId nm now uuid)
  with assms show ?thesis using consistent_register by blast
next
  case (JoinRoom c r cb)
  with assms show ?thesis using consistent_join by blast
next
  case (LeaveRoom c r cb)
  with assms show ?thesis using consistent_leave by blast
next
  case (Disconnect c now)
  with assms show ?thesis using consistent_disconnect by blast
next
  case (Advance now)
  with assms show ?thesis using consistent_advance by blast
next
  case (Sweep now)
  with assms show ?thesis by simp
qed (use assms in simp_all)

lemma consistent_run:
  "consistent s \<Longrightarrow> valid_trace es s \<Longrightarrow> consistent (run es s)"
  by (induction es arbitrary: s) (simp_all add: consistent_step)

lemma consistent_initial: "consistent initial"
  by (rule consistentI) (simp_all add: initial_def live_def in_room_def has_room_def mem_def)

subsection \<open>The two indexes agree on live entries\<close>

text \<open>
  Claim C4, as the code has it.  Along every sequence of events in which each connection
  registers after it has connected and before it joins or leaves a room, the first
  time under a logical id that no live entry holds and later only under the id it
  has, and in which only open connections act (grace timeouts may run, the sweep does
  not): for every room \<open>r\<close> and every live entry \<open>u\<close> of the registry, the connection of
  \<open>u\<close> is a member of \<open>r\<close> exactly when \<open>r\<close> is in the room set of the id of \<open>u\<close>.
\<close>

theorem C4_room_symmetry_of_live_entries:
  assumes "valid_trace evs initial"
    and "Map_get (users (run evs initial)) c = Some u" and "isOnline u"
  shows "in_room (run evs initial) c r \<longleftrightarrow> has_room (run evs initial) (user_id u) r"
proof -
  have "consistent (run evs initial)"
    using consistent_initial assms(1) by (rule consistent_run)
  then show ?thesis using assms(2,3) by (rule consistent_sym)
qed

lemma two_tabs_state:
  "run two_tabs_trace initial =
     \<lparr>users = [(''c1'', \<lparr>user_id = ''u1'', name = ''Ann'', socketId = ''c1'',
                            lastSeen = 1000, isOnline = True\<rparr>),
               (''c2'', \<lparr>user_id = ''u1'', name = ''Ann'', socketId = ''c2'',
                            lastSeen = 2000, isOnline = True\<rparr>)],
      rooms = [(''user_u1'', [''c1'', ''c2'']), (''lobby'', [''c1''])],
      userRooms = [(''u1'', [''user_u1'', ''lobby''])],
      timers = [],
      conns = [''c1'', ''c2''],
      groups = [(''user_u1'', ''c1''), (''user_u1'', ''c2''), (''lobby'', ''c1'')]\<rparr>"
  by (simp add: two_tabs_trace_def handler_defs)

text \<open>
  Claim C4 as stated fails: when two connections have registered the same logical id
  and the first joins a room, the room is in the room set of the second connection's
  user, and the second connection is not a member of the room.
\<close>

theorem C4_two_connections_one_id:
  "Map_get (users (run two_tabs_trace initial)) ''c2''
     = Some \<lparr>user_id = ''u1'', name = ''Ann'', socketId = ''c2'', lastSeen = 2000, isOnline = True\<rparr>
   \<and> has_room (run two_tabs_trace initial) ''u1'' ''lobby''
   \<and> \<not> in_room (run two_tabs_trace initial) ''c2'' ''lobby''
   \<and> \<not> symmetric (run two_tabs_trace initial)"
proof -
  let ?s = "run two_tabs_trace initial"
  let ?u = "\<lparr>user_id = ''u1'', name = ''Ann'', socketId = ''c2'', lastSeen = 2000, isOnline = True\<rparr>"
  have u: "Map_get (users ?s) ''c2'' = Some ?u" by (simp add: two_tabs_state)
  have h: "has_room ?s ''u1'' ''lobby''" by (simp add: two_tabs_state has_room_def mem_def)
  have r: "\<not> in_room ?s ''c2'' ''lobby''" by (simp add: two_tabs_state in_room_def mem_def)
  have "\<not> symmetric ?s"
  proof
    assume "symmetric ?s"
    with u have "in_room ?s ''c2'' ''lobby'' \<longleftrightarrow> has_room ?s (user_id ?u) ''lobby''"
      unfolding symmetric_def by blast
    with h r show False by simp
  qed
  with u h r show ?thesis by simp
qed

lemma rooms_trace_valid: "valid_trace rooms_trace initial"
  by (simp add: rooms_trace_def live_entries_def handler_defs)

lemma rooms_state:
  "run rooms_trace initial =
     \<lparr>users = [(''c1'', \<lparr>user_id = ''u1'', name = ''Ann'', socketId = ''c1'',
                            lastSeen = 1000, isOnline = True\<rparr>),
               (''c2'', \<lparr>user_id = ''u2'', name = ''Bob'', socketId = ''c2'',
                            lastSeen = 3000, isOnline = False\<rparr>)],
      rooms = [(''user_u1'', [''c1''])],
      userRooms = [(''u1'', [''user_u1''])],
      timers = [(8000, ''c2'')],
      conns = [''c1''],
      groups = [(''user_u1'', ''c1'')]\<rparr>"
  by (simp add: rooms_trace_def handler_defs)

theorem C4_room_symmetry_of_live_entries_witness:
  "valid_trace rooms_trace initial
   \<and> Map_get (users (run rooms_trace initial)) ''c1''
       = Some \<lparr>user_id = ''u1'', name = ''Ann'', socketId = ''c1'', lastSeen = 1000, isOnline = True\<rparr>
   \<and> (in_room (run rooms_trace initial) ''c1'' ''lobby''
        \<longleftrightarrow> has_room (run rooms_trace initial) ''u1'' ''lobby'')
   \<and> (in_room (run rooms_trace initial) ''c1'' ''user_u1''
        \<longleftrightarrow> has_room (run rooms_trace initial) ''u1'' ''user_u1'')
   \<and> in_room (run rooms_trace initial) ''c1'' ''user_u1''"
proof -
  let ?u = "\<lparr>user_id = ''u1'', name = ''Ann'', socketId = ''c1'', lastSeen = 1000, isOnline = True\<rparr>"
  have u: "Map_get (users (run rooms_trace initial)) ''c1'' = Some ?u" by (simp add: rooms_state)
  have o: "isOnline ?u" by simp
  have m: "in_room (run rooms_trace initial) ''c1'' ''user_u1''"
    by (simp add: rooms_state in_room_def mem_def)
  from C4_room_symmetry_of_live_entries[OF rooms_trace_valid u o, of "''lobby''"]
    C4_room_symmetry_of_live_entries[OF rooms_trace_valid u o, of "''user_u1''"]
    rooms_trace_valid u m
  show ?thesis by simp
qed

text \<open>The conditions on the events are needed: a room joined before the registration
  never reaches the room set of the user, and the entry of a closed connection does not
  follow the room set that a new connection of the same user builds.\<close>

lemma early_join_asymmetric:
  "in_room (run early_join_trace initial) ''c1'' ''lobby''
   \<and> \<not> has_room (run early_join_trace initial) ''u1'' ''lobby''"
  by (simp add: early_join_trace_def in_room_def has_room_def mem_def handler_defs)

lemma offline_entry_asymmetric:
  "Map_get (users (run reconnect_trace initial)) ''c1'' = Some ann_offline
   \<and> has_room (run reconnect_trace initial) (user_id ann_offline) ''lobby''
   \<and> \<not> in_room (run reconnect_trace initial) ''c1'' ''lobby''"
  by (simp add: reconnect_state in_room_def has_room_def mem_def ann_offline_def)


end
